theory Spec2Isabelle
  imports Complex_Main "HOL-Library.Monad_Syntax"
begin

section \<open>Arrays, loops and the heap of vectors\<close>

text \<open>
  A C array is a list; an index is a C \<open>int\<close>. An access outside the allocated block is
  undefined behaviour in C: every access of the model is checked and the whole computation
  is \<open>None\<close> from the first access that falls outside.
\<close>

definition rd :: "'a list \<Rightarrow> int \<Rightarrow> 'a option" where
  "rd xs i = (if 0 \<le> i \<and> i < int (length xs) then Some (xs ! nat i) else None)"

definition wr :: "'a list \<Rightarrow> int \<Rightarrow> 'a \<Rightarrow> 'a list option" where
  "wr xs i v = (if 0 \<le> i \<and> i < int (length xs) then Some (xs[nat i := v]) else None)"

text \<open>
  The C type \<open>int\<close> has 32 bits. A result of \<open>int\<close> arithmetic outside its range is undefined
  behaviour; where the code computes a capacity, \<open>c_int\<close> is the check that the result is
  in range. \<open>new T[n]\<close> throws on a negative \<open>n\<close>.
\<close>

definition INT_MAX :: int where
  "INT_MAX = 2147483647"

definition INT_MIN :: int where
  "INT_MIN = - 2147483648"

definition c_int :: "int \<Rightarrow> int option" where
  "c_int x = (if INT_MIN \<le> x \<and> x \<le> INT_MAX then Some x else None)"

text \<open>\<open>for (i in is) body\<close>: the loop body is run on each index in turn, threading the state.\<close>

fun for_loop :: "'i list \<Rightarrow> ('i \<Rightarrow> 's \<Rightarrow> 's option) \<Rightarrow> 's \<Rightarrow> 's option" where
  "for_loop [] body s = Some s"
| "for_loop (i # is) body s = Option.bind (body i s) (for_loop is body)"

text \<open>
  The arrays the kernels read and write: the local array of a \<open>BVec\<close> object (named by the
  object's identity) or the operator's own buffer \<open>x_ext\<close>. The kernels receive two
  pointers; both may name the same array.
\<close>

datatype ref = Vec nat | XExt

type_synonym 'a heap = "ref \<Rightarrow> 'a list"

section \<open>The matrix-vector kernels\<close>

text \<open>\<open>y[yi] += w[0]*x[xi(cols[j])]\<close>, with \<open>w\<close> the running weight pointer at offset \<open>wp\<close>.\<close>

definition mult_stmt ::
  "int list \<Rightarrow> 'a::{plus,times} list \<Rightarrow> ref \<Rightarrow> ref \<Rightarrow> int \<Rightarrow> int \<Rightarrow> int \<Rightarrow> (int \<Rightarrow> int)
     \<Rightarrow> 'a heap \<Rightarrow> 'a heap option" where
  "mult_stmt cols w x y wp j yi xi h = do {
     yv \<leftarrow> rd (h y) yi;
     wv \<leftarrow> rd w wp;
     c \<leftarrow> rd cols j;
     xv \<leftarrow> rd (h x) (xi c);
     ynew \<leftarrow> wr (h y) yi (yv + wv * xv);
     Some (h(y := ynew)) }"

text \<open>\<open>y[yi(cols[j])] += w[0]*x[xi]\<close>.\<close>

definition trans_stmt ::
  "int list \<Rightarrow> 'a::{plus,times} list \<Rightarrow> ref \<Rightarrow> ref \<Rightarrow> int \<Rightarrow> int \<Rightarrow> (int \<Rightarrow> int) \<Rightarrow> int
     \<Rightarrow> 'a heap \<Rightarrow> 'a heap option" where
  "trans_stmt cols w x y wp j yi xi h = do {
     c \<leftarrow> rd cols j;
     yv \<leftarrow> rd (h y) (yi c);
     wv \<leftarrow> rd w wp;
     xv \<leftarrow> rd (h x) xi;
     ynew \<leftarrow> wr (h y) (yi c) (yv + wv * xv);
     Some (h(y := ynew)) }"

text \<open>
  The two loops every kernel shares: rows \<open>i = 0 .. nrows-1\<close>, entries
  \<open>j = rowp[i] .. rowp[i+1]-1\<close>, and \<open>w++\<close> after each entry. \<open>entry i j wp h\<close> is the
  block of statements executed for one entry.
\<close>

definition csr_loop ::
  "int \<Rightarrow> int list \<Rightarrow> (int \<Rightarrow> int \<Rightarrow> int \<Rightarrow> 'a heap \<Rightarrow> 'a heap option) \<Rightarrow> 'a heap \<Rightarrow> 'a heap option" where
  "csr_loop nrows rowp entry h =
     map_option snd
       (for_loop [0..nrows - 1]
          (\<lambda>i (wp, h). do {
             j0 \<leftarrow> rd rowp i;
             end \<leftarrow> rd rowp (i + 1);
             for_loop [j0..end - 1]
               (\<lambda>j (wp, h). do { h' \<leftarrow> entry i j wp h; Some (wp + 1, h') })
               (wp, h) })
          (0, h))"

definition BVecInterpMultAddGen ::
  "int \<Rightarrow> int \<Rightarrow> int list \<Rightarrow> int list \<Rightarrow> 'a::{plus,times} list \<Rightarrow> ref \<Rightarrow> ref \<Rightarrow> 'a heap \<Rightarrow> 'a heap option" where
  "BVecInterpMultAddGen bsize nrows rowp cols w x y =
     csr_loop nrows rowp (\<lambda>i j wp.
       for_loop [0..bsize - 1] (\<lambda>k.
         mult_stmt cols w x y wp j (bsize * i + k) (\<lambda>c. bsize * c + k)))"

definition BVecInterpMultTransposeAddGen ::
  "int \<Rightarrow> int \<Rightarrow> int list \<Rightarrow> int list \<Rightarrow> 'a::{plus,times} list \<Rightarrow> ref \<Rightarrow> ref \<Rightarrow> 'a heap \<Rightarrow> 'a heap option" where
  "BVecInterpMultTransposeAddGen bsize nrows rowp cols w x y =
     csr_loop nrows rowp (\<lambda>i j wp.
       for_loop [0..bsize - 1] (\<lambda>k.
         trans_stmt cols w x y wp j (\<lambda>c. bsize * c + k) (bsize * i + k)))"

definition BVecInterpMultAdd1 ::
  "int \<Rightarrow> int \<Rightarrow> int list \<Rightarrow> int list \<Rightarrow> 'a::{plus,times} list \<Rightarrow> ref \<Rightarrow> ref \<Rightarrow> 'a heap \<Rightarrow> 'a heap option" where
  "BVecInterpMultAdd1 bsize nrows rowp cols w x y =
     csr_loop nrows rowp (\<lambda>i j wp h.
       mult_stmt cols w x y wp j i (\<lambda>c. c) h)"

definition BVecInterpMultTransposeAdd1 ::
  "int \<Rightarrow> int \<Rightarrow> int list \<Rightarrow> int list \<Rightarrow> 'a::{plus,times} list \<Rightarrow> ref \<Rightarrow> ref \<Rightarrow> 'a heap \<Rightarrow> 'a heap option" where
  "BVecInterpMultTransposeAdd1 bsize nrows rowp cols w x y =
     csr_loop nrows rowp (\<lambda>i j wp h.
       trans_stmt cols w x y wp j (\<lambda>c. c) i h)"

definition BVecInterpMultAdd2 ::
  "int \<Rightarrow> int \<Rightarrow> int list \<Rightarrow> int list \<Rightarrow> 'a::{plus,times} list \<Rightarrow> ref \<Rightarrow> ref \<Rightarrow> 'a heap \<Rightarrow> 'a heap option" where
  "BVecInterpMultAdd2 bsize nrows rowp cols w x y =
     csr_loop nrows rowp (\<lambda>i j wp h. do {
       h \<leftarrow> mult_stmt cols w x y wp j (2 * i) (\<lambda>c. 2 * c) h;
       mult_stmt cols w x y wp j (2 * i + 1) (\<lambda>c. 2 * c + 1) h })"

definition BVecInterpMultTransposeAdd2 ::
  "int \<Rightarrow> int \<Rightarrow> int list \<Rightarrow> int list \<Rightarrow> 'a::{plus,times} list \<Rightarrow> ref \<Rightarrow> ref \<Rightarrow> 'a heap \<Rightarrow> 'a heap option" where
  "BVecInterpMultTransposeAdd2 bsize nrows rowp cols w x y =
     csr_loop nrows rowp (\<lambda>i j wp h. do {
       h \<leftarrow> trans_stmt cols w x y wp j (\<lambda>c. 2 * c) (2 * i) h;
       trans_stmt cols w x y wp j (\<lambda>c. 2 * c + 1) (2 * i + 1) h })"

definition BVecInterpMultAdd3 ::
  "int \<Rightarrow> int \<Rightarrow> int list \<Rightarrow> int list \<Rightarrow> 'a::{plus,times} list \<Rightarrow> ref \<Rightarrow> ref \<Rightarrow> 'a heap \<Rightarrow> 'a heap option" where
  "BVecInterpMultAdd3 bsize nrows rowp cols w x y =
     csr_loop nrows rowp (\<lambda>i j wp h. do {
       h \<leftarrow> mult_stmt cols w x y wp j (3 * i) (\<lambda>c. 3 * c) h;
       h \<leftarrow> mult_stmt cols w x y wp j (3 * i + 1) (\<lambda>c. 3 * c + 1) h;
       mult_stmt cols w x y wp j (3 * i + 2) (\<lambda>c. 3 * c + 2) h })"

definition BVecInterpMultTransposeAdd3 ::
  "int \<Rightarrow> int \<Rightarrow> int list \<Rightarrow> int list \<Rightarrow> 'a::{plus,times} list \<Rightarrow> ref \<Rightarrow> ref \<Rightarrow> 'a heap \<Rightarrow> 'a heap option" where
  "BVecInterpMultTransposeAdd3 bsize nrows rowp cols w x y =
     csr_loop nrows rowp (\<lambda>i j wp h. do {
       h \<leftarrow> trans_stmt cols w x y wp j (\<lambda>c. 3 * c) (3 * i) h;
       h \<leftarrow> trans_stmt cols w x y wp j (\<lambda>c. 3 * c + 1) (3 * i + 1) h;
       trans_stmt cols w x y wp j (\<lambda>c. 3 * c + 2) (3 * i + 2) h })"

definition BVecInterpMultAdd5 ::
  "int \<Rightarrow> int \<Rightarrow> int list \<Rightarrow> int list \<Rightarrow> 'a::{plus,times} list \<Rightarrow> ref \<Rightarrow> ref \<Rightarrow> 'a heap \<Rightarrow> 'a heap option" where
  "BVecInterpMultAdd5 bsize nrows rowp cols w x y =
     csr_loop nrows rowp (\<lambda>i j wp h. do {
       h \<leftarrow> mult_stmt cols w x y wp j (5 * i) (\<lambda>c. 5 * c) h;
       h \<leftarrow> mult_stmt cols w x y wp j (5 * i + 1) (\<lambda>c. 5 * c + 1) h;
       h \<leftarrow> mult_stmt cols w x y wp j (5 * i + 2) (\<lambda>c. 5 * c + 2) h;
       h \<leftarrow> mult_stmt cols w x y wp j (5 * i + 3) (\<lambda>c. 5 * c + 3) h;
       mult_stmt cols w x y wp j (5 * i + 4) (\<lambda>c. 5 * c + 4) h })"

definition BVecInterpMultTransposeAdd5 ::
  "int \<Rightarrow> int \<Rightarrow> int list \<Rightarrow> int list \<Rightarrow> 'a::{plus,times} list \<Rightarrow> ref \<Rightarrow> ref \<Rightarrow> 'a heap \<Rightarrow> 'a heap option" where
  "BVecInterpMultTransposeAdd5 bsize nrows rowp cols w x y =
     csr_loop nrows rowp (\<lambda>i j wp h. do {
       h \<leftarrow> trans_stmt cols w x y wp j (\<lambda>c. 5 * c) (5 * i) h;
       h \<leftarrow> trans_stmt cols w x y wp j (\<lambda>c. 5 * c + 1) (5 * i + 1) h;
       h \<leftarrow> trans_stmt cols w x y wp j (\<lambda>c. 5 * c + 2) (5 * i + 2) h;
       h \<leftarrow> trans_stmt cols w x y wp j (\<lambda>c. 5 * c + 3) (5 * i + 3) h;
       trans_stmt cols w x y wp j (\<lambda>c. 5 * c + 4) (5 * i + 4) h })"

definition BVecInterpMultAdd6 ::
  "int \<Rightarrow> int \<Rightarrow> int list \<Rightarrow> int list \<Rightarrow> 'a::{plus,times} list \<Rightarrow> ref \<Rightarrow> ref \<Rightarrow> 'a heap \<Rightarrow> 'a heap option" where
  "BVecInterpMultAdd6 bsize nrows rowp cols w x y =
     csr_loop nrows rowp (\<lambda>i j wp h. do {
       h \<leftarrow> mult_stmt cols w x y wp j (6 * i) (\<lambda>c. 6 * c) h;
       h \<leftarrow> mult_stmt cols w x y wp j (6 * i + 1) (\<lambda>c. 6 * c + 1) h;
       h \<leftarrow> mult_stmt cols w x y wp j (6 * i + 2) (\<lambda>c. 6 * c + 2) h;
       h \<leftarrow> mult_stmt cols w x y wp j (6 * i + 3) (\<lambda>c. 6 * c + 3) h;
       h \<leftarrow> mult_stmt cols w x y wp j (6 * i + 4) (\<lambda>c. 6 * c + 4) h;
       mult_stmt cols w x y wp j (6 * i + 5) (\<lambda>c. 6 * c + 5) h })"

definition BVecInterpMultTransposeAdd6 ::
  "int \<Rightarrow> int \<Rightarrow> int list \<Rightarrow> int list \<Rightarrow> 'a::{plus,times} list \<Rightarrow> ref \<Rightarrow> ref \<Rightarrow> 'a heap \<Rightarrow> 'a heap option" where
  "BVecInterpMultTransposeAdd6 bsize nrows rowp cols w x y =
     csr_loop nrows rowp (\<lambda>i j wp h. do {
       h \<leftarrow> trans_stmt cols w x y wp j (\<lambda>c. 6 * c) (6 * i) h;
       h \<leftarrow> trans_stmt cols w x y wp j (\<lambda>c. 6 * c + 1) (6 * i + 1) h;
       h \<leftarrow> trans_stmt cols w x y wp j (\<lambda>c. 6 * c + 2) (6 * i + 2) h;
       h \<leftarrow> trans_stmt cols w x y wp j (\<lambda>c. 6 * c + 3) (6 * i + 3) h;
       h \<leftarrow> trans_stmt cols w x y wp j (\<lambda>c. 6 * c + 4) (6 * i + 4) h;
       trans_stmt cols w x y wp j (\<lambda>c. 6 * c + 5) (6 * i + 5) h })"

text \<open>
  The \<open>switch (bsize)\<close> at the end of the constructor: the generic kernels are installed
  first and replaced for the block sizes 1, 2, 3, 5 and 6.
\<close>

definition select_multadd ::
  "int \<Rightarrow> int \<Rightarrow> int \<Rightarrow> int list \<Rightarrow> int list \<Rightarrow> 'a::{plus,times} list \<Rightarrow> ref \<Rightarrow> ref \<Rightarrow> 'a heap \<Rightarrow> 'a heap option" where
  "select_multadd bsize =
     (if bsize = 1 then BVecInterpMultAdd1
      else if bsize = 2 then BVecInterpMultAdd2
      else if bsize = 3 then BVecInterpMultAdd3
      else if bsize = 5 then BVecInterpMultAdd5
      else if bsize = 6 then BVecInterpMultAdd6
      else BVecInterpMultAddGen)"

definition select_multtransadd ::
  "int \<Rightarrow> int \<Rightarrow> int \<Rightarrow> int list \<Rightarrow> int list \<Rightarrow> 'a::{plus,times} list \<Rightarrow> ref \<Rightarrow> ref \<Rightarrow> 'a heap \<Rightarrow> 'a heap option" where
  "select_multtransadd bsize =
     (if bsize = 1 then BVecInterpMultTransposeAdd1
      else if bsize = 2 then BVecInterpMultTransposeAdd2
      else if bsize = 3 then BVecInterpMultTransposeAdd3
      else if bsize = 5 then BVecInterpMultTransposeAdd5
      else if bsize = 6 then BVecInterpMultTransposeAdd6
      else BVecInterpMultTransposeAddGen)"


section \<open>External collaborators\<close>

text \<open>
  Modelled from the spec: \<open>VarMap\<close> (the spec's IndexMap) is declared outside the sources
  at hand. The record holds what its getters return: the communicator, the block size,
  the table \<open>ownerRange[0..size]\<close> with this process's rank and the number of processes,
  and the number of indices this process owns.
\<close>

record MPI_Comm =
  comm_context :: nat
  comm_group :: "nat list"

datatype comm_result = MPI_IDENT | MPI_CONGRUENT | MPI_SIMILAR | MPI_UNEQUAL

text \<open>Modelled from the MPI standard: the result of \<open>MPI_Comm_compare\<close>.\<close>

definition MPI_Comm_compare :: "MPI_Comm \<Rightarrow> MPI_Comm \<Rightarrow> comm_result" where
  "MPI_Comm_compare c1 c2 =
     (if c1 = c2 then MPI_IDENT
      else if comm_group c1 = comm_group c2 then MPI_CONGRUENT
      else if set (comm_group c1) = set (comm_group c2) then MPI_SIMILAR
      else MPI_UNEQUAL)"

definition MPI_Comm_size :: "MPI_Comm \<Rightarrow> int" where
  "MPI_Comm_size c = int (length (comm_group c))"

record VarMap =
  getMPIComm :: MPI_Comm
  getBlockSize :: int
  getOwnerRange :: "int list"
  getRank :: int
  getDim :: int

text \<open>
  Modelled from the spec: \<open>FElibrary::findInterval(index, intv, len)\<close> searches the table
  of owner ranges for the interval \<open>k\<close> with \<open>intv[k] \<le> index < intv[k+1]\<close>. The caller in
  \<open>finalize\<close> tests the result against \<open>index < 0 || index >= mpiSize\<close>: below the table
  the result is \<open>-1\<close>, at or above its last entry it is \<open>len-1\<close>.
\<close>

definition findInterval :: "int \<Rightarrow> int list \<Rightarrow> int \<Rightarrow> int" where
  "findInterval index intv len =
     int (length (takeWhile (\<lambda>b. b \<le> index) (take (nat len) intv))) - 1"

text \<open>
  Modelled from the spec: \<open>FElibrary::uniqueSort(array, len)\<close> sorts the array ascending,
  removes the duplicates and returns the new length; the result here is the sorted prefix.
\<close>

definition uniqueSort :: "int list \<Rightarrow> int list" where
  "uniqueSort xs = sort (remdups xs)"

text \<open>
  Modelled from the C standard: \<open>bsearch(&key, &base[start], n, ..., comparator)\<close> on a
  sorted block returns a pointer to an element equal to the key, or NULL. The result here
  is the offset of that element from \<open>base\<close>.
\<close>

fun bsearch_from :: "int \<Rightarrow> int list \<Rightarrow> int \<Rightarrow> int option" where
  "bsearch_from key [] pos = None"
| "bsearch_from key (c # cs) pos = (if c = key then Some pos else bsearch_from key cs (pos + 1))"

definition bsearch :: "int \<Rightarrow> int list \<Rightarrow> int \<Rightarrow> int \<Rightarrow> int option" where
  "bsearch key base start n = bsearch_from key (take (nat n) (drop (nat start) base)) start"

text \<open>
  Modelled from the spec: \<open>matutils::SortAndUniquifyCSR(N, rowp, cols, nodiag)\<close> with
  \<open>nodiag = 0\<close> sorts every row ascending by column, removes the duplicate columns of the
  row, closes the gaps and rewrites \<open>rowp\<close>; no diagonal entry is removed. The array
  \<open>cols\<close> is given here up to its new end \<open>rowp[N]\<close>.
\<close>

definition csr_row :: "int list \<Rightarrow> 'b list \<Rightarrow> nat \<Rightarrow> 'b list" where
  "csr_row rp cs i = take (nat (rp ! Suc i - rp ! i)) (drop (nat (rp ! i)) cs)"

definition uniq_rows :: "int \<Rightarrow> int list \<Rightarrow> int list \<Rightarrow> int list list" where
  "uniq_rows n rp cs = map (\<lambda>i. uniqueSort (csr_row rp cs i)) [0..<nat n]"

fun row_pointers :: "int \<Rightarrow> int list list \<Rightarrow> int list" where
  "row_pointers start [] = [start]"
| "row_pointers start (r # rs) = start # row_pointers (start + int (length r)) rs"

definition SortAndUniquifyCSR :: "int \<Rightarrow> int list \<Rightarrow> int list \<Rightarrow> (int list \<times> int list) option" where
  "SortAndUniquifyCSR n rp cs =
     (if 0 \<le> n \<and> int (length rp) = n + 1 \<and> rp ! 0 = 0 \<and> sorted rp \<and> last rp \<le> int (length cs)
      then Some (row_pointers 0 (uniq_rows n rp cs), concat (uniq_rows n rp cs))
      else None)"

text \<open>
  Modelled from the spec: a \<open>BVec\<close> (the spec's DistributedVector) gives a pointer to its
  local array, zeroes its entries and copies the values of another vector.
\<close>

definition zeroEntries :: "'a::zero list \<Rightarrow> 'a list" where
  "zeroEntries v = replicate (length v) 0"

definition copyValues :: "'a list \<Rightarrow> 'a list \<Rightarrow> 'a list" where
  "copyValues src dst = src"

text \<open>
  Modelled from the spec: the \<open>BVecDistribute\<close> object (the spec's HaloExchange) is built
  over the input map and the table of external variables. Its forward exchange fills
  \<open>x_ext\<close> with the components of the input vector named by the table, which other
  processes own: \<open>halo k\<close> is the value delivered into cell \<open>k\<close>. Its reverse exchange with
  \<open>ADD\<close> sends \<open>x_ext\<close> to the owners and adds what arrives here into the local array of the
  output vector: \<open>arrive\<close> is that change of the local array.
\<close>

record BVecDistribute =
  dist_map :: VarMap
  dist_ext_vars :: "int list"

definition forward :: "(nat \<Rightarrow> 'a) \<Rightarrow> int \<Rightarrow> 'a list" where
  "forward halo n = map halo [0..<nat n]"

section \<open>The operator\<close>

datatype message =
    ErrBlockSizes
  | ErrMPIGroups
  | ErrMustFinalize int
  | ErrLocalOutOfRange

type_synonym 'a kernel =
  "int \<Rightarrow> int \<Rightarrow> int list \<Rightarrow> int list \<Rightarrow> 'a list \<Rightarrow> ref \<Rightarrow> ref \<Rightarrow> 'a heap \<Rightarrow> 'a heap option"

text \<open>
  The staging arrays \<open>on_nums\<close>, \<open>on_rowp\<close>, \<open>on_vars\<close>, \<open>on_weights\<close> and their \<open>off_\<close>
  twins are allocated uninitialised with the capacities \<open>max_on_size\<close>, \<open>max_on_size+1\<close>
  and \<open>max_on_weights\<close>. Each list of the model is the part of the array written so far,
  always a prefix of it; the capacity is kept beside it. The arrays of the finished
  operator are \<open>NULL\<close> before \<open>finalize\<close>, given as the empty list.
\<close>

record 'a BVecInterp =
  inMap :: VarMap
  outMap :: VarMap
  bsize :: int
  comm :: MPI_Comm
  outOwnerRange :: "int list"
  inOwnerRange :: "int list"
  mpiRank :: int
  N :: int
  on_size :: int
  max_on_size :: int
  max_on_weights :: int
  on_nums :: "int list"
  on_rowp :: "int list"
  on_vars :: "int list"
  on_weights :: "'a list"
  off_size :: int
  max_off_size :: int
  max_off_weights :: int
  off_nums :: "int list"
  off_rowp :: "int list"
  off_vars :: "int list"
  off_weights :: "'a list"
  vecDist :: "BVecDistribute option"
  rowp :: "int list"
  cols :: "int list"
  weights :: "'a list"
  ext_rowp :: "int list"
  ext_cols :: "int list"
  ext_weights :: "'a list"
  num_ext_vars :: int
  multadd :: "'a kernel"
  multtransadd :: "'a kernel"

text \<open>
  The constructor. On either error it prints and returns early, leaving the object
  half-built: the result is then the message alone. The capacities are computed in \<open>int\<close>:
  when \<open>27*max_on_size\<close> leaves the range of \<open>int\<close>, or \<open>getDim\<close> is negative so that
  \<open>new int[max_on_size]\<close> throws, no operator is built either. \<open>int(0.1*N)\<close> is \<open>N div 10\<close>
  for the \<open>N \<ge> 0\<close> that get there.
\<close>

datatype failure = Printed message | Undefined

definition BVecInterp_new :: "VarMap \<Rightarrow> VarMap \<Rightarrow> failure + ('a::{plus,times}) BVecInterp" where
  "BVecInterp_new in_map out_map =
     (if getBlockSize in_map \<noteq> getBlockSize out_map then Inl (Printed ErrBlockSizes)
      else if \<not> (MPI_Comm_compare (getMPIComm out_map) (getMPIComm in_map) = MPI_IDENT
                \<or> MPI_Comm_compare (getMPIComm out_map) (getMPIComm in_map) = MPI_CONGRUENT)
      then Inl (Printed ErrMPIGroups)
      else if getDim out_map < 0 \<or> c_int (27 * getDim out_map) = None then Inl Undefined
      else Inr \<lparr>
        inMap = in_map, outMap = out_map,
        bsize = getBlockSize in_map,
        comm = getMPIComm in_map,
        outOwnerRange = getOwnerRange out_map,
        inOwnerRange = getOwnerRange in_map,
        mpiRank = getRank in_map,
        N = getDim out_map,
        on_size = 0,
        max_on_size = getDim out_map,
        max_on_weights = 27 * getDim out_map,
        on_nums = [], on_rowp = [0], on_vars = [], on_weights = [],
        off_size = 0,
        max_off_size = (if getDim out_map div 10 < 100 then 100 else getDim out_map div 10),
        max_off_weights = 27 * (if getDim out_map div 10 < 100 then 100 else getDim out_map div 10),
        off_nums = [], off_rowp = [0], off_vars = [], off_weights = [],
        vecDist = None,
        rowp = [], cols = [], weights = [],
        ext_rowp = [], ext_cols = [], ext_weights = [],
        num_ext_vars = 0,
        multadd = select_multadd (getBlockSize in_map),
        multtransadd = select_multtransadd (getBlockSize in_map) \<rparr>)"

subsection \<open>Staging: \<open>addInterp\<close>\<close>

text \<open>
  A write into an array of capacity \<open>cap\<close> whose written prefix is \<open>xs\<close>: inside the
  prefix it overwrites, at its end it extends the prefix. The staging code never writes
  further out.
\<close>

definition put :: "'a list \<Rightarrow> int \<Rightarrow> int \<Rightarrow> 'a \<Rightarrow> 'a list option" where
  "put xs cap i v =
     (if 0 \<le> i \<and> i < cap \<and> i \<le> int (length xs)
      then Some (if i < int (length xs) then xs[nat i := v] else xs @ [v])
      else None)"

text \<open>\<open>num >= ownerRange[mpiRank] && num < ownerRange[mpiRank+1]\<close>\<close>

definition owned :: "int list \<Rightarrow> int \<Rightarrow> int \<Rightarrow> bool option" where
  "owned rng r num = do {
     lo \<leftarrow> rd rng r;
     if num \<ge> lo then do { hi \<leftarrow> rd rng (r + 1); Some (num < hi) } else Some False }"

text \<open>
  The two branches of \<open>addInterp\<close> are the same code on the \<open>on_\<close> and on the \<open>off_\<close>
  arrays; \<open>stage_row\<close> is that code on \<open>(size, max_size, max_weights, nums, rowp, vars,
  weights)\<close>. The arrays double when full; \<open>memcpy\<close> copies the first \<open>size\<close>, \<open>size+1\<close> and
  \<open>rowp[size]\<close> cells, and a negative count is undefined. The new capacities and the new
  row pointer are \<open>int\<close> sums.
\<close>

definition stage_row ::
  "int \<Rightarrow> 'a list \<Rightarrow> int list \<Rightarrow> int
     \<Rightarrow> int \<times> int \<times> int \<times> int list \<times> int list \<times> int list \<times> 'a list
     \<Rightarrow> (int \<times> int \<times> int \<times> int list \<times> int list \<times> int list \<times> 'a list) option" where
  "stage_row num w vars cnt st =
     (case st of (sz, max_size, max_weights, nums, rp, vs, ws) \<Rightarrow> do {
        (max_size, nums, rp) \<leftarrow>
          (if sz \<ge> max_size
           then do {
             m \<leftarrow> c_int (max_size + max_size);
             m1 \<leftarrow> c_int (m + 1);
             if 0 \<le> m \<and> 0 \<le> sz then Some (m, take (nat sz) nums, take (nat (sz + 1)) rp)
             else None }
           else Some (max_size, nums, rp));
        p \<leftarrow> rd rp sz;
        e \<leftarrow> c_int (p + cnt);
        (max_weights, vs, ws) \<leftarrow>
          (if e > max_weights
           then do {
             t \<leftarrow> c_int (cnt + max_weights);
             m \<leftarrow> c_int (max_weights + t);
             if 0 \<le> m \<and> 0 \<le> p then Some (m, take (nat p) vs, take (nat p) ws)
             else None }
           else Some (max_weights, vs, ws));
        nums \<leftarrow> put nums max_size sz num;
        p \<leftarrow> rd rp sz;
        e \<leftarrow> c_int (p + cnt);
        rp \<leftarrow> put rp (max_size + 1) (sz + 1) e;
        (vs, ws) \<leftarrow> for_loop [0..cnt - 1]
           (\<lambda>i (vs, ws). do {
              v \<leftarrow> rd vars i;
              vs \<leftarrow> put vs max_weights (p + i) v;
              x \<leftarrow> rd w i;
              ws \<leftarrow> put ws max_weights (p + i) x;
              Some (vs, ws) })
           (vs, ws);
        Some (sz + 1, max_size, max_weights, nums, rp, vs, ws) })"

definition addInterp ::
  "int \<Rightarrow> 'a list \<Rightarrow> int list \<Rightarrow> int \<Rightarrow> 'a BVecInterp \<Rightarrow> 'a BVecInterp option" where
  "addInterp num w vars cnt op = do {
     own \<leftarrow> owned (outOwnerRange op) (mpiRank op) num;
     if own then do {
       (sz, max_size, max_weights, nums, rp, vs, ws) \<leftarrow>
         stage_row num w vars cnt
           (on_size op, max_on_size op, max_on_weights op,
            on_nums op, on_rowp op, on_vars op, on_weights op);
       Some (op\<lparr> on_size := sz, max_on_size := max_size, max_on_weights := max_weights,
                 on_nums := nums, on_rowp := rp, on_vars := vs, on_weights := ws \<rparr>) }
     else do {
       (sz, max_size, max_weights, nums, rp, vs, ws) \<leftarrow>
         stage_row num w vars cnt
           (off_size op, max_off_size op, max_off_weights op,
            off_nums op, off_rowp op, off_vars op, off_weights op);
       Some (op\<lparr> off_size := sz, max_off_size := max_size, max_off_weights := max_weights,
                 off_nums := nums, off_rowp := rp, off_vars := vs, off_weights := ws \<rparr>) } }"

subsection \<open>\<open>finalize\<close>: arrays without initial values\<close>

text \<open>
  \<open>new int[n]\<close> without \<open>memset\<close> gives cells of no definite value: a cell is \<open>None\<close> until
  it is written, and a read of such a cell has no result.
\<close>

type_synonym 'a cells = "'a option list"

definition new_array :: "int \<Rightarrow> 'a cells option" where
  "new_array n = (if 0 \<le> n then Some (replicate (nat n) None) else None)"

definition store :: "'a cells \<Rightarrow> int \<Rightarrow> 'a \<Rightarrow> 'a cells option" where
  "store a i v = wr a i (Some v)"

definition load :: "'a cells \<Rightarrow> int \<Rightarrow> 'a option" where
  "load a i = Option.bind (rd a i) (\<lambda>c. c)"

text \<open>\<open>new T[n]\<close> followed by \<open>memset(..., 0, n*sizeof(T))\<close>\<close>

definition new_zeroed :: "int \<Rightarrow> 'a::zero list option" where
  "new_zeroed n = (if 0 \<le> n then Some (replicate (nat n) 0) else None)"

text \<open>\<open>a[i] += d\<close>\<close>

definition bump :: "'a::plus list \<Rightarrow> int \<Rightarrow> 'a \<Rightarrow> 'a list option" where
  "bump a i d = do { x \<leftarrow> rd a i; wr a i (x + d) }"

text \<open>\<open>ptr[0] = 0; for (i = 0; i < n; i++) ptr[i+1] = ptr[i] + count[i];\<close>\<close>

definition set_pointers :: "int \<Rightarrow> int list \<Rightarrow> int cells \<Rightarrow> int cells option" where
  "set_pointers n count ptr = do {
     ptr \<leftarrow> store ptr 0 0;
     for_loop [0..n - 1]
       (\<lambda>i ptr. do { a \<leftarrow> load ptr i; c \<leftarrow> rd count i; store ptr (i + 1) (a + c) })
       ptr }"

subsection \<open>\<open>finalize\<close>: what each process sends\<close>

record 'a sendbuf =
  tmp_count :: "int list"
  tmp_ptr :: "int cells"
  tmp_weights_count :: "int list"
  tmp_weights_ptr :: "int cells"
  tmp_nums :: "int cells"
  tmp_weights_per_row :: "int cells"
  tmp_vars :: "int cells"
  tmp_weights :: "'a cells"

text \<open>
  The first part of \<open>finalize\<close>: the staged off-processor rows are counted per owner and
  copied, grouped by owner, into the arrays to send.
\<close>

definition count_off :: "'a BVecInterp \<Rightarrow> int \<Rightarrow> int list \<times> int list \<Rightarrow> (int list \<times> int list) option" where
  "count_off op mpiSize =
     for_loop [0..off_size op - 1]
       (\<lambda>i (tcount, twcount). do {
          num \<leftarrow> rd (off_nums op) i;
          let index = findInterval num (outOwnerRange op) (mpiSize + 1);
          tcount \<leftarrow> bump tcount index 1;
          r1 \<leftarrow> rd (off_rowp op) (i + 1);
          r0 \<leftarrow> rd (off_rowp op) i;
          twcount \<leftarrow> bump twcount index (r1 - r0);
          Some (tcount, twcount) })"

definition copy_off ::
  "'a BVecInterp \<Rightarrow> int
     \<Rightarrow> int cells \<times> int cells \<times> int cells \<times> int cells \<times> int cells \<times> 'a cells
     \<Rightarrow> (int cells \<times> int cells \<times> int cells \<times> int cells \<times> int cells \<times> 'a cells) option" where
  "copy_off op mpiSize =
     for_loop [0..off_size op - 1]
       (\<lambda>i (tptr, twptr, tnums, tper_row, tvars, tweights). do {
          num \<leftarrow> rd (off_nums op) i;
          let index = findInterval num (outOwnerRange op) (mpiSize + 1);
          if \<not> (index < 0 \<or> index \<ge> mpiSize) then do {
            t \<leftarrow> load tptr index;
            tnums \<leftarrow> store tnums t num;
            j \<leftarrow> load twptr index;
            k0 \<leftarrow> rd (off_rowp op) i;
            k1 \<leftarrow> rd (off_rowp op) (i + 1);
            (tweights, tvars, j) \<leftarrow> for_loop [k0..k1 - 1]
               (\<lambda>k (tweights, tvars, j). do {
                  x \<leftarrow> rd (off_weights op) k;
                  tweights \<leftarrow> store tweights j x;
                  v \<leftarrow> rd (off_vars op) k;
                  tvars \<leftarrow> store tvars j v;
                  Some (tweights, tvars, j + 1) })
               (tweights, tvars, j);
            tper_row \<leftarrow> store tper_row t (k1 - k0);
            t \<leftarrow> load tptr index;
            tptr \<leftarrow> store tptr index (t + 1);
            tw \<leftarrow> load twptr index;
            twptr \<leftarrow> store twptr index (tw + (k1 - k0));
            Some (tptr, twptr, tnums, tper_row, tvars, tweights) }
          else Some (tptr, twptr, tnums, tper_row, tvars, tweights) })"

definition finalize_send :: "'a BVecInterp \<Rightarrow> 'a sendbuf option" where
  "finalize_send op = do {
     let mpiSize = MPI_Comm_size (comm op);
     tcount \<leftarrow> new_zeroed mpiSize;
     tptr \<leftarrow> new_array (mpiSize + 1);
     twcount \<leftarrow> new_zeroed mpiSize;
     twptr \<leftarrow> new_array (mpiSize + 1);
     (tcount, twcount) \<leftarrow> count_off op mpiSize (tcount, twcount);
     tptr \<leftarrow> set_pointers mpiSize tcount tptr;
     twptr \<leftarrow> set_pointers mpiSize twcount twptr;
     tnums \<leftarrow> new_array (off_size op);
     tper_row \<leftarrow> new_array (off_size op);
     total \<leftarrow> rd (off_rowp op) (off_size op);
     tvars \<leftarrow> new_array total;
     tweights \<leftarrow> new_array total;
     (tptr, twptr, tnums, tper_row, tvars, tweights) \<leftarrow>
        copy_off op mpiSize (tptr, twptr, tnums, tper_row, tvars, tweights);
     tptr \<leftarrow> set_pointers mpiSize tcount tptr;
     twptr \<leftarrow> set_pointers mpiSize twcount twptr;
     Some \<lparr> tmp_count = tcount, tmp_ptr = tptr,
            tmp_weights_count = twcount, tmp_weights_ptr = twptr,
            tmp_nums = tnums, tmp_weights_per_row = tper_row,
            tmp_vars = tvars, tmp_weights = tweights \<rparr> }"

subsection \<open>\<open>finalize\<close>: the exchange\<close>

text \<open>
  Modelled from the MPI standard. \<open>sends\<close> lists, by rank, what every process of the
  communicator passes to the collective call; the result is what the process of rank \<open>r\<close>
  receives. \<open>MPI_Alltoall\<close> with one \<open>int\<close> per process: cell \<open>s\<close> of the result is cell \<open>r\<close>
  of what rank \<open>s\<close> sends. \<open>MPI_Alltoallv\<close>: the block of \<open>sendcounts[r]\<close> cells at
  \<open>sdispls[r]\<close> of rank \<open>s\<close> arrives in the cells at \<open>rdispls[s]\<close>; the counts of the
  two sides have to agree.
\<close>

definition MPI_Alltoall :: "int list list \<Rightarrow> int \<Rightarrow> int list option" where
  "MPI_Alltoall sends r = those (map (\<lambda>buf. rd buf r) sends)"

definition MPI_Alltoallv ::
  "('b cells \<times> int list \<times> int cells) list \<Rightarrow> int \<Rightarrow> 'b cells \<Rightarrow> int list \<Rightarrow> int cells
     \<Rightarrow> 'b cells option" where
  "MPI_Alltoallv sends r recv recvcounts rdispls =
     for_loop [0..int (length sends) - 1]
       (\<lambda>s recv. do {
          (buf, sendcounts, sdispls) \<leftarrow> rd sends s;
          n \<leftarrow> rd sendcounts r;
          m \<leftarrow> rd recvcounts s;
          if n \<noteq> m then None
          else if n \<le> 0 then Some recv
          else do {
            d \<leftarrow> load sdispls r;
            e \<leftarrow> load rdispls s;
            for_loop [0..n - 1]
              (\<lambda>t recv. do { c \<leftarrow> rd buf (d + t); wr recv (e + t) c })
              recv } })
       recv"

record 'a recvbuf =
  in_size :: int
  in_nums :: "int cells"
  in_weights_per_row :: "int cells"
  in_vars :: "int cells"
  in_weights :: "'a cells"

definition finalize_recv :: "'a sendbuf list \<Rightarrow> int \<Rightarrow> 'a recvbuf option" where
  "finalize_recv sends r = do {
     let mpiSize = int (length sends);
     iptr \<leftarrow> new_array (mpiSize + 1);
     iwptr \<leftarrow> new_array (mpiSize + 1);
     icount \<leftarrow> MPI_Alltoall (map tmp_count sends) r;
     iptr \<leftarrow> set_pointers mpiSize icount iptr;
     iwcount \<leftarrow> MPI_Alltoall (map tmp_weights_count sends) r;
     iwptr \<leftarrow> set_pointers mpiSize iwcount iwptr;
     n \<leftarrow> load iptr mpiSize;
     nw \<leftarrow> load iwptr mpiSize;
     inums \<leftarrow> new_array n;
     iper_row \<leftarrow> new_array n;
     ivars \<leftarrow> new_array nw;
     iweights \<leftarrow> new_array nw;
     inums \<leftarrow> MPI_Alltoallv (map (\<lambda>b. (tmp_nums b, tmp_count b, tmp_ptr b)) sends)
                r inums icount iptr;
     iper_row \<leftarrow> MPI_Alltoallv (map (\<lambda>b. (tmp_weights_per_row b, tmp_count b, tmp_ptr b)) sends)
                r iper_row icount iptr;
     ivars \<leftarrow> MPI_Alltoallv (map (\<lambda>b. (tmp_vars b, tmp_weights_count b, tmp_weights_ptr b)) sends)
                r ivars iwcount iwptr;
     iweights \<leftarrow> MPI_Alltoallv (map (\<lambda>b. (tmp_weights b, tmp_weights_count b, tmp_weights_ptr b)) sends)
                r iweights iwcount iwptr;
     n \<leftarrow> load iptr mpiSize;
     Some \<lparr> in_size = n, in_nums = inums, in_weights_per_row = iper_row,
            in_vars = ivars, in_weights = iweights \<rparr> }"

subsection \<open>\<open>finalize\<close>: building the two CSR structures\<close>

text \<open>
  The bodies of the innermost loops, which the loop over the rows staged here and the loop
  over the rows received share: counting a variable as local or external, storing it at
  the cursor of its row, and adding its weight at the place \<open>bsearch\<close> finds.
\<close>

definition count_entry :: "'a BVecInterp \<Rightarrow> int \<Rightarrow> int \<times> int \<Rightarrow> (int \<times> int) option" where
  "count_entry op v = (\<lambda>(num_local, num_ext). do {
     loc \<leftarrow> owned (inOwnerRange op) (mpiRank op) v;
     Some (if loc then (num_local + 1, num_ext) else (num_local, num_ext + 1)) })"

definition place_entry ::
  "'a BVecInterp \<Rightarrow> int \<Rightarrow> int \<Rightarrow> int list \<times> int cells \<times> int list \<times> int cells
     \<Rightarrow> (int list \<times> int cells \<times> int list \<times> int cells) option" where
  "place_entry op num v = (\<lambda>(rp, cs, erp, ecs). do {
     loc \<leftarrow> owned (inOwnerRange op) (mpiRank op) v;
     if loc then do {
       p \<leftarrow> rd rp num;
       cs \<leftarrow> store cs p v;
       rp \<leftarrow> bump rp num 1;
       Some (rp, cs, erp, ecs) }
     else do {
       p \<leftarrow> rd erp num;
       ecs \<leftarrow> store ecs p v;
       erp \<leftarrow> bump erp num 1;
       Some (rp, cs, erp, ecs) } })"

definition weight_entry ::
  "'a BVecInterp \<Rightarrow> int list \<Rightarrow> int list \<Rightarrow> int list \<Rightarrow> int list \<Rightarrow> int \<Rightarrow> int \<Rightarrow> 'a::plus
     \<Rightarrow> 'a list \<times> 'a list \<Rightarrow> ('a list \<times> 'a list) option" where
  "weight_entry op rp cs erp ecs num v x = (\<lambda>(ws, ews). do {
     loc \<leftarrow> owned (inOwnerRange op) (mpiRank op) v;
     if loc then do {
       e \<leftarrow> rd rp (num + 1);
       b \<leftarrow> rd rp num;
       (case bsearch v cs b (e - b) of
          Some item \<Rightarrow> do { ws \<leftarrow> bump ws item x; Some (ws, ews) }
        | None \<Rightarrow> Some (ws, ews)) }
     else do {
       e \<leftarrow> rd erp (num + 1);
       b \<leftarrow> rd erp num;
       (case bsearch v ecs b (e - b) of
          Some item \<Rightarrow> do { ews \<leftarrow> bump ews item x; Some (ws, ews) }
        | None \<Rightarrow> Some (ws, ews)) } })"

text \<open>Counting, over the rows staged on this process and over the rows received.\<close>

definition count_on ::
  "'a BVecInterp \<Rightarrow> int list \<times> int list \<times> message list \<Rightarrow> (int list \<times> int list \<times> message list) option" where
  "count_on op =
     for_loop [0..on_size op - 1]
       (\<lambda>i (rp, erp, err). do {
          num \<leftarrow> rd (on_nums op) i;
          own \<leftarrow> owned (outOwnerRange op) (mpiRank op) num;
          if own then do {
            lo \<leftarrow> rd (outOwnerRange op) (mpiRank op);
            let num = num - lo;
            j0 \<leftarrow> rd (on_rowp op) i;
            j1 \<leftarrow> rd (on_rowp op) (i + 1);
            (num_local, num_ext) \<leftarrow> for_loop [j0..j1 - 1]
               (\<lambda>j c. do { v \<leftarrow> rd (on_vars op) j; count_entry op v c })
               (0, 0);
            rp \<leftarrow> bump rp (num + 1) num_local;
            erp \<leftarrow> bump erp (num + 1) num_ext;
            Some (rp, erp, err) }
          else Some (rp, erp, err @ [ErrLocalOutOfRange]) })"

definition count_in ::
  "'a BVecInterp \<Rightarrow> 'a recvbuf \<Rightarrow> int \<times> int list \<times> int list \<times> message list
     \<Rightarrow> (int \<times> int list \<times> int list \<times> message list) option" where
  "count_in op inb =
     for_loop [0..in_size inb - 1]
       (\<lambda>i (k, rp, erp, err). do {
          num \<leftarrow> load (in_nums inb) i;
          own \<leftarrow> owned (outOwnerRange op) (mpiRank op) num;
          if own then do {
            lo \<leftarrow> rd (outOwnerRange op) (mpiRank op);
            let num = num - lo;
            n \<leftarrow> load (in_weights_per_row inb) i;
            ((num_local, num_ext), k) \<leftarrow> for_loop [0..n - 1]
               (\<lambda>j (c, k). do {
                  v \<leftarrow> load (in_vars inb) k;
                  c \<leftarrow> count_entry op v c;
                  Some (c, k + 1) })
               ((0, 0), k);
            rp \<leftarrow> bump rp (num + 1) num_local;
            erp \<leftarrow> bump erp (num + 1) num_ext;
            Some (k, rp, erp, err) }
          else do {
            n \<leftarrow> load (in_weights_per_row inb) i;
            Some (k + n, rp, erp, err @ [ErrLocalOutOfRange]) } })"

text \<open>\<open>rowp[0] = 0; for (i = 0; i < N; i++) rowp[i+1] += rowp[i];\<close>\<close>

definition running_sums :: "int \<Rightarrow> int list \<Rightarrow> int list option" where
  "running_sums n rp = do {
     rp \<leftarrow> wr rp 0 0;
     for_loop [0..n - 1] (\<lambda>i rp. do { a \<leftarrow> rd rp i; bump rp (i + 1) a }) rp }"

text \<open>Placing the variables; this moves each row's pointer to the end of the row.\<close>

definition place_on ::
  "'a BVecInterp \<Rightarrow> int list \<times> int cells \<times> int list \<times> int cells
     \<Rightarrow> (int list \<times> int cells \<times> int list \<times> int cells) option" where
  "place_on op =
     for_loop [0..on_size op - 1]
       (\<lambda>i st. do {
          num \<leftarrow> rd (on_nums op) i;
          own \<leftarrow> owned (outOwnerRange op) (mpiRank op) num;
          if own then do {
            lo \<leftarrow> rd (outOwnerRange op) (mpiRank op);
            let num = num - lo;
            j0 \<leftarrow> rd (on_rowp op) i;
            j1 \<leftarrow> rd (on_rowp op) (i + 1);
            for_loop [j0..j1 - 1]
              (\<lambda>j st. do { v \<leftarrow> rd (on_vars op) j; place_entry op num v st })
              st }
          else Some st })"

definition place_in ::
  "'a BVecInterp \<Rightarrow> 'a recvbuf \<Rightarrow> int \<times> int list \<times> int cells \<times> int list \<times> int cells
     \<Rightarrow> (int \<times> int list \<times> int cells \<times> int list \<times> int cells) option" where
  "place_in op inb =
     for_loop [0..in_size inb - 1]
       (\<lambda>i (k, st). do {
          num \<leftarrow> load (in_nums inb) i;
          own \<leftarrow> owned (outOwnerRange op) (mpiRank op) num;
          if own then do {
            lo \<leftarrow> rd (outOwnerRange op) (mpiRank op);
            let num = num - lo;
            n \<leftarrow> load (in_weights_per_row inb) i;
            for_loop [0..n - 1]
              (\<lambda>j (k, st). do {
                 v \<leftarrow> load (in_vars inb) k;
                 st \<leftarrow> place_entry op num v st;
                 Some (k + 1, st) })
              (k, st) }
          else do {
            n \<leftarrow> load (in_weights_per_row inb) i;
            Some (k + n, st) } })"

text \<open>\<open>for (i = N; i > 0; i--) rowp[i] = rowp[i-1]; rowp[0] = 0;\<close>\<close>

definition shift_back :: "int \<Rightarrow> int list \<Rightarrow> int list option" where
  "shift_back n rp = do {
     rp \<leftarrow> for_loop (rev [1..n]) (\<lambda>i rp. do { a \<leftarrow> rd rp (i - 1); wr rp i a }) rp;
     wr rp 0 0 }"

text \<open>Adding the weights into the sorted rows.\<close>

definition weights_on ::
  "'a::plus BVecInterp \<Rightarrow> int list \<Rightarrow> int list \<Rightarrow> int list \<Rightarrow> int list \<Rightarrow> 'a list \<times> 'a list
     \<Rightarrow> ('a list \<times> 'a list) option" where
  "weights_on op rp cs erp ecs =
     for_loop [0..on_size op - 1]
       (\<lambda>i st. do {
          num \<leftarrow> rd (on_nums op) i;
          own \<leftarrow> owned (outOwnerRange op) (mpiRank op) num;
          if own then do {
            lo \<leftarrow> rd (outOwnerRange op) (mpiRank op);
            let num = num - lo;
            j0 \<leftarrow> rd (on_rowp op) i;
            j1 \<leftarrow> rd (on_rowp op) (i + 1);
            for_loop [j0..j1 - 1]
              (\<lambda>j st. do {
                 v \<leftarrow> rd (on_vars op) j;
                 x \<leftarrow> rd (on_weights op) j;
                 weight_entry op rp cs erp ecs num v x st })
              st }
          else Some st })"

definition weights_in ::
  "'a::plus BVecInterp \<Rightarrow> 'a recvbuf \<Rightarrow> int list \<Rightarrow> int list \<Rightarrow> int list \<Rightarrow> int list
     \<Rightarrow> int \<times> 'a list \<times> 'a list \<Rightarrow> (int \<times> 'a list \<times> 'a list) option" where
  "weights_in op inb rp cs erp ecs =
     for_loop [0..in_size inb - 1]
       (\<lambda>i (k, st). do {
          num \<leftarrow> load (in_nums inb) i;
          own \<leftarrow> owned (outOwnerRange op) (mpiRank op) num;
          if own then do {
            lo \<leftarrow> rd (outOwnerRange op) (mpiRank op);
            let num = num - lo;
            n \<leftarrow> load (in_weights_per_row inb) i;
            for_loop [0..n - 1]
              (\<lambda>j (k, st). do {
                 v \<leftarrow> load (in_vars inb) k;
                 x \<leftarrow> load (in_weights inb) k;
                 st \<leftarrow> weight_entry op rp cs erp ecs num v x st;
                 Some (k + 1, st) })
              (k, st) }
          else do {
            n \<leftarrow> load (in_weights_per_row inb) i;
            Some (k + n, st) } })"

text \<open>
  The table of external variables and the two renumberings: the local columns are
  shifted by \<open>inOwnerRange[mpiRank]\<close>, every external column becomes its place in the
  table. \<open>bsearch\<close> returning \<open>NULL\<close> there would make \<open>item - ext_vars\<close> undefined.
\<close>

definition shift_cols :: "'a BVecInterp \<Rightarrow> int \<Rightarrow> int list \<Rightarrow> int list option" where
  "shift_cols op n cs =
     for_loop [0..n - 1]
       (\<lambda>j cs. do { c \<leftarrow> rd cs j; lo \<leftarrow> rd (inOwnerRange op) (mpiRank op); wr cs j (c - lo) })
       cs"

definition renumber_ext :: "int list \<Rightarrow> int \<Rightarrow> int \<Rightarrow> int list \<Rightarrow> int list option" where
  "renumber_ext ext_vars nvars n ecs =
     for_loop [0..n - 1]
       (\<lambda>j ecs. do {
          c \<leftarrow> rd ecs j;
          item \<leftarrow> bsearch c ext_vars 0 nvars;
          wr ecs j item })
       ecs"

text \<open>The normalisation of every row by the sum of its local and external weights.\<close>

definition sum_range :: "'a::plus list \<Rightarrow> int \<Rightarrow> int \<Rightarrow> 'a \<Rightarrow> 'a option" where
  "sum_range ws a b w = for_loop [a..b - 1] (\<lambda>j w. do { x \<leftarrow> rd ws j; Some (w + x) }) w"

definition div_range :: "'a::inverse list \<Rightarrow> int \<Rightarrow> int \<Rightarrow> 'a \<Rightarrow> 'a list option" where
  "div_range ws a b w = for_loop [a..b - 1] (\<lambda>j ws. do { x \<leftarrow> rd ws j; wr ws j (x / w) }) ws"

definition normalize_rows ::
  "int \<Rightarrow> int list \<Rightarrow> int list \<Rightarrow> 'a::{zero,plus,inverse} list \<times> 'a list \<Rightarrow> ('a list \<times> 'a list) option" where
  "normalize_rows n rp erp =
     for_loop [0..n - 1]
       (\<lambda>i (ws, ews). do {
          a \<leftarrow> rd rp i;
          b \<leftarrow> rd rp (i + 1);
          w \<leftarrow> sum_range ws a b 0;
          ea \<leftarrow> rd erp i;
          eb \<leftarrow> rd erp (i + 1);
          w \<leftarrow> sum_range ews ea eb w;
          if w \<noteq> 0 then do {
            ws \<leftarrow> div_range ws a b w;
            ews \<leftarrow> div_range ews ea eb w;
            Some (ws, ews) }
          else Some (ws, ews) })"

text \<open>
  The second part of \<open>finalize\<close>, from the rows staged here and the rows received to the
  finished operator, with what it prints, in four steps: the sorted column structure of
  both parts, the weights added into it, the table of external variables with the two
  renumberings, and the normalisation.
\<close>

definition finalize_pattern ::
  "'a BVecInterp \<Rightarrow> 'a recvbuf \<Rightarrow> (int list \<times> int list \<times> int list \<times> int list \<times> message list) option" where
  "finalize_pattern op inb = do {
     rp \<leftarrow> new_zeroed (N op + 1);
     erp \<leftarrow> new_zeroed (N op + 1);
     (rp, erp, err) \<leftarrow> count_on op (rp, erp, []);
     (k, rp, erp, err) \<leftarrow> count_in op inb (0, rp, erp, err);
     rp \<leftarrow> running_sums (N op) rp;
     erp \<leftarrow> running_sums (N op) erp;
     n \<leftarrow> rd rp (N op);
     cs \<leftarrow> new_array n;
     en \<leftarrow> rd erp (N op);
     ecs \<leftarrow> new_array en;
     (rp, cs, erp, ecs) \<leftarrow> place_on op (rp, cs, erp, ecs);
     (k, rp, cs, erp, ecs) \<leftarrow> place_in op inb (0, rp, cs, erp, ecs);
     rp \<leftarrow> shift_back (N op) rp;
     erp \<leftarrow> shift_back (N op) erp;
     cs \<leftarrow> those cs;
     ecs \<leftarrow> those ecs;
     (rp, cs) \<leftarrow> SortAndUniquifyCSR (N op) rp cs;
     (erp, ecs) \<leftarrow> SortAndUniquifyCSR (N op) erp ecs;
     Some (rp, cs, erp, ecs, err) }"

definition finalize_weights ::
  "'a::{zero,plus} BVecInterp \<Rightarrow> 'a recvbuf \<Rightarrow> int list \<Rightarrow> int list \<Rightarrow> int list \<Rightarrow> int list
     \<Rightarrow> ('a list \<times> 'a list) option" where
  "finalize_weights op inb rp cs erp ecs = do {
     n \<leftarrow> rd rp (N op);
     ws \<leftarrow> new_zeroed n;
     en \<leftarrow> rd erp (N op);
     ews \<leftarrow> new_zeroed en;
     (ws, ews) \<leftarrow> weights_on op rp cs erp ecs (ws, ews);
     (k, ws, ews) \<leftarrow> weights_in op inb rp cs erp ecs (0, ws, ews);
     Some (ws, ews) }"

definition finalize_renumber ::
  "'a BVecInterp \<Rightarrow> int list \<Rightarrow> int list \<Rightarrow> int list \<Rightarrow> int list
     \<Rightarrow> (int list \<times> int \<times> int list \<times> int list) option" where
  "finalize_renumber op rp cs erp ecs = do {
     en \<leftarrow> rd erp (N op);
     let ext_vars = uniqueSort (take (nat en) ecs);
     let nvars = int (length ext_vars);
     n \<leftarrow> rd rp (N op);
     cs \<leftarrow> shift_cols op n cs;
     ecs \<leftarrow> renumber_ext ext_vars nvars en ecs;
     Some (ext_vars, nvars, cs, ecs) }"

definition finalize_assemble ::
  "'a::{zero,plus,inverse} BVecInterp \<Rightarrow> 'a recvbuf \<Rightarrow> ('a BVecInterp \<times> message list) option" where
  "finalize_assemble op inb = do {
     (rp, cs, erp, ecs, err) \<leftarrow> finalize_pattern op inb;
     (ws, ews) \<leftarrow> finalize_weights op inb rp cs erp ecs;
     (ext_vars, nvars, cs, ecs) \<leftarrow> finalize_renumber op rp cs erp ecs;
     (ws, ews) \<leftarrow> normalize_rows (N op) rp erp (ws, ews);
     Some (op\<lparr>
        on_nums := [], on_rowp := [], on_vars := [], on_weights := [],
        off_nums := [], off_rowp := [], off_vars := [], off_weights := [],
        vecDist := Some \<lparr> dist_map = inMap op, dist_ext_vars = ext_vars \<rparr>,
        rowp := rp, cols := cs, weights := ws,
        ext_rowp := erp, ext_cols := ecs, ext_weights := ews,
        num_ext_vars := nvars \<rparr>, err) }"

text \<open>
  \<open>finalize\<close> is collective: \<open>ops\<close> lists the operators of all processes of the
  communicator by rank, each with what it staged. Every process packs what it sends, the
  exchange delivers it, and every process assembles its rows.
\<close>

definition finalize ::
  "'a::{zero,plus,inverse} BVecInterp list \<Rightarrow> ('a BVecInterp \<times> message list) list option" where
  "finalize ops = do {
     sends \<leftarrow> those (map finalize_send ops);
     those (map (\<lambda>op. do {
        inb \<leftarrow> finalize_recv sends (mpiRank op);
        finalize_assemble op inb }) ops) }"

subsection \<open>Applying the operator\<close>

text \<open>
  The vectors live in the heap and are passed by identity, as the \<open>BVec\<close> pointers are;
  \<open>stderr\<close> collects what is printed.
\<close>

record 'a world =
  heap :: "'a heap"
  stderr :: "message list"

definition mult ::
  "'a::{zero,plus,times} BVecInterp \<Rightarrow> (nat \<Rightarrow> 'a) \<Rightarrow> nat \<Rightarrow> nat \<Rightarrow> 'a world \<Rightarrow> 'a world option" where
  "mult op halo inVec outVec wd =
     (case vecDist op of
        None \<Rightarrow> Some (wd\<lparr> stderr := stderr wd @ [ErrMustFinalize (mpiRank op)] \<rparr>)
      | Some vd \<Rightarrow> do {
          let h = (heap wd)(Vec outVec := zeroEntries (heap wd (Vec outVec)));
          h \<leftarrow> multadd op (bsize op) (N op) (rowp op) (cols op) (weights op)
                 (Vec inVec) (Vec outVec) h;
          let h = h(XExt := forward halo (bsize op * num_ext_vars op));
          h \<leftarrow> multadd op (bsize op) (N op) (ext_rowp op) (ext_cols op) (ext_weights op)
                 XExt (Vec outVec) h;
          Some (wd\<lparr> heap := h \<rparr>) })"

definition multAdd ::
  "'a::{zero,plus,times} BVecInterp \<Rightarrow> (nat \<Rightarrow> 'a) \<Rightarrow> nat \<Rightarrow> nat \<Rightarrow> nat \<Rightarrow> 'a world \<Rightarrow> 'a world option" where
  "multAdd op halo inVec addVec outVec wd =
     (case vecDist op of
        None \<Rightarrow> Some (wd\<lparr> stderr := stderr wd @ [ErrMustFinalize (mpiRank op)] \<rparr>)
      | Some vd \<Rightarrow> do {
          let h = (if outVec \<noteq> addVec
                   then (heap wd)(Vec outVec := copyValues (heap wd (Vec addVec)) (heap wd (Vec outVec)))
                   else heap wd);
          h \<leftarrow> multadd op (bsize op) (N op) (rowp op) (cols op) (weights op)
                 (Vec inVec) (Vec outVec) h;
          let h = h(XExt := forward halo (bsize op * num_ext_vars op));
          h \<leftarrow> multadd op (bsize op) (N op) (ext_rowp op) (ext_cols op) (ext_weights op)
                 XExt (Vec outVec) h;
          Some (wd\<lparr> heap := h \<rparr>) })"

definition multTranspose ::
  "'a::{zero,plus,times} BVecInterp \<Rightarrow> ('a list \<Rightarrow> 'a list) \<Rightarrow> nat \<Rightarrow> nat \<Rightarrow> 'a world \<Rightarrow> 'a world option" where
  "multTranspose op arrive inVec outVec wd =
     (case vecDist op of
        None \<Rightarrow> Some (wd\<lparr> stderr := stderr wd @ [ErrMustFinalize (mpiRank op)] \<rparr>)
      | Some vd \<Rightarrow> do {
          let h = (heap wd)(Vec outVec := zeroEntries (heap wd (Vec outVec)));
          x_ext \<leftarrow> new_zeroed (bsize op * num_ext_vars op);
          let h = h(XExt := x_ext);
          h \<leftarrow> multtransadd op (bsize op) (N op) (ext_rowp op) (ext_cols op) (ext_weights op)
                 (Vec inVec) XExt h;
          h \<leftarrow> multtransadd op (bsize op) (N op) (rowp op) (cols op) (weights op)
                 (Vec inVec) (Vec outVec) h;
          let h = h(Vec outVec := arrive (h (Vec outVec)));
          Some (wd\<lparr> heap := h \<rparr>) })"

definition multTransposeAdd ::
  "'a::{zero,plus,times} BVecInterp \<Rightarrow> ('a list \<Rightarrow> 'a list) \<Rightarrow> nat \<Rightarrow> nat \<Rightarrow> nat \<Rightarrow> 'a world \<Rightarrow> 'a world option" where
  "multTransposeAdd op arrive inVec addVec outVec wd =
     (case vecDist op of
        None \<Rightarrow> Some (wd\<lparr> stderr := stderr wd @ [ErrMustFinalize (mpiRank op)] \<rparr>)
      | Some vd \<Rightarrow> do {
          let h = (if outVec \<noteq> addVec
                   then (heap wd)(Vec outVec := copyValues (heap wd (Vec addVec)) (heap wd (Vec outVec)))
                   else heap wd);
          x_ext \<leftarrow> new_zeroed (bsize op * num_ext_vars op);
          let h = h(XExt := x_ext);
          h \<leftarrow> multtransadd op (bsize op) (N op) (ext_rowp op) (ext_cols op) (ext_weights op)
                 (Vec inVec) XExt h;
          h \<leftarrow> multtransadd op (bsize op) (N op) (rowp op) (cols op) (weights op)
                 (Vec inVec) (Vec outVec) h;
          let h = h(Vec outVec := arrive (h (Vec outVec)));
          Some (wd\<lparr> heap := h \<rparr>) })"

section \<open>Calls and scenarios\<close>

text \<open>A sequence of \<open>addInterp\<close> calls, each \<open>(num, w, vars, size)\<close>.\<close>

fun addInterp_calls ::
  "(int \<times> 'a list \<times> int list \<times> int) list \<Rightarrow> 'a BVecInterp \<Rightarrow> 'a BVecInterp option" where
  "addInterp_calls [] op = Some op"
| "addInterp_calls ((num, w, vars, cnt) # calls) op =
     Option.bind (addInterp num w vars cnt op) (addInterp_calls calls)"

text \<open>The map of \<open>n\<close> indices with block size \<open>b\<close> on a communicator of one process.\<close>

definition one_rank_map :: "int \<Rightarrow> int \<Rightarrow> VarMap" where
  "one_rank_map b n =
     \<lparr> getMPIComm = \<lparr> comm_context = 0, comm_group = [0] \<rparr>, getBlockSize = b,
       getOwnerRange = [0, n], getRank = 0, getDim = n \<rparr>"

text \<open>
  Scenario S1 of the spec: one process, block size 1, three inputs, two outputs, the rows
  \<open>addInterp(0, [1,1], [0,1], 2)\<close> and \<open>addInterp(1, [2], [2], 1)\<close>; before and after
  \<open>finalize\<close>.
\<close>

definition unfinalized_S1 :: "real BVecInterp option" where
  "unfinalized_S1 =
     (case BVecInterp_new (one_rank_map 1 3) (one_rank_map 1 2) of
        Inl e \<Rightarrow> None
      | Inr op \<Rightarrow> addInterp_calls [(0, [1, 1], [0, 1], 2), (1, [2], [2], 1)] op)"

definition scenario_S1 :: "(real BVecInterp \<times> message list) list option" where
  "scenario_S1 = do { op \<leftarrow> unfinalized_S1; finalize [op] }"

section \<open>The inner kernel contract of the spec\<close>




section \<open>Relations between two runs\<close>

text \<open>Two heaps that differ in the array \<open>y\<close> by the vector \<open>z\<close>, added in front.\<close>

definition shifted :: "ref \<Rightarrow> 'a::plus list \<Rightarrow> 'a heap \<Rightarrow> 'a heap \<Rightarrow> bool" where
  "shifted y z h1 h2 \<longleftrightarrow>
     length z = length (h2 y) \<and> h1 y = map2 (+) z (h2 y) \<and> (\<forall>r. r \<noteq> y \<longrightarrow> h1 r = h2 r)"

text \<open>The kernels an operator holds are the ones the constructor selects for its block size.\<close>

definition kernels_ok :: "'a::{plus,times} BVecInterp \<Rightarrow> bool" where
  "kernels_ok op \<longleftrightarrow>
     multadd op = select_multadd (bsize op) \<and> multtransadd op = select_multtransadd (bsize op)"

section \<open>Rows, their sums and the steps of \<open>finalize\<close>\<close>

text \<open>
  A CSR structure of \<open>n\<close> rows over an array \<open>xs\<close>: \<open>n+1\<close> row pointers from 0 to the length
  of \<open>xs\<close> that do not decrease.
\<close>

definition wf_csr :: "int \<Rightarrow> int list \<Rightarrow> 'b list \<Rightarrow> bool" where
  "wf_csr n rp xs \<longleftrightarrow>
     0 \<le> n \<and> int (length rp) = n + 1 \<and> rp ! 0 = 0 \<and> sorted rp \<and> last rp = int (length xs)"

text \<open>
  A row divided by the sum \<open>s\<close>, or left alone when \<open>s\<close> is zero; the sum of row \<open>i\<close> as the
  code runs it up, from 0 over the local weights of the row and on over the external ones
  (\<open>w += weights[j]\<close>); and the array after the normalisation has passed the rows before
  \<open>t\<close>.
\<close>

definition norm_row :: "'a::{zero,inverse} \<Rightarrow> 'a list \<Rightarrow> 'a list" where
  "norm_row s row = (if s \<noteq> 0 then map (\<lambda>x. x / s) row else row)"



text \<open>
  The steps of \<open>finalize\<close> on the process of rank \<open>r\<close>, with what each of them returns:
  what is received, the column structure, the weights before the normalisation and the
  finished operator. \<open>ops\<close> lists the operators of all processes by rank.
\<close>

definition finalize_steps ::
  "'a::{zero,plus,inverse} BVecInterp list \<Rightarrow> nat \<Rightarrow>
     ('a BVecInterp \<times> 'a recvbuf \<times> (int list \<times> int list \<times> int list \<times> int list \<times> message list)
        \<times> ('a list \<times> 'a list) \<times> ('a BVecInterp \<times> message list)) option" where
  "finalize_steps ops r = do {
     sends \<leftarrow> those (map finalize_send ops);
     op \<leftarrow> (if r < length ops then Some (ops ! r) else None);
     inb \<leftarrow> finalize_recv sends (mpiRank op);
     p \<leftarrow> finalize_pattern op inb;
     w \<leftarrow> (case p of (rp, cs, erp, ecs, err) \<Rightarrow> finalize_weights op inb rp cs erp ecs);
     res \<leftarrow> finalize_assemble op inb;
     Some (op, inb, p, w, res) }"



section \<open>The table of external variables: places and a scenario on two processes\<close>

text \<open>The place of the first element equal to the key.\<close>

fun first_index :: "int \<Rightarrow> int list \<Rightarrow> nat" where
  "first_index key [] = 0"
| "first_index key (c # cs) = (if c = key then 0 else Suc (first_index key cs))"

text \<open>
  Two processes with two inputs and two outputs each. Rank 0 stages a row of rank 1 and
  its own row 0 over the inputs 1 and 3; rank 1 stages one more entry for row 0 of rank 0,
  over the input 2.
\<close>

definition two_rank_map :: "int \<Rightarrow> int \<Rightarrow> VarMap" where
  "two_rank_map b r =
     \<lparr> getMPIComm = \<lparr> comm_context = 0, comm_group = [0, 1] \<rparr>, getBlockSize = b,
       getOwnerRange = [0, 2, 4], getRank = r, getDim = 2 \<rparr>"

definition unfinalized_two_ranks :: "real BVecInterp list option" where
  "unfinalized_two_ranks =
     (case (BVecInterp_new (two_rank_map 1 0) (two_rank_map 1 0),
            BVecInterp_new (two_rank_map 1 1) (two_rank_map 1 1)) of
        (Inr op0, Inr op1) \<Rightarrow> do {
          op0 \<leftarrow> addInterp_calls [(3, [1], [0], 1), (0, [1, 1], [1, 3], 2)] op0;
          op1 \<leftarrow> addInterp_calls [(0, [1], [2], 1)] op1;
          Some [op0, op1] }
      | _ \<Rightarrow> None)"

section \<open>The staging arrays and calls with invalid arguments\<close>

text \<open>
  What the constructor and every call of \<open>addInterp\<close> keep true of the staging arrays
  \<open>(size, max_size, max_weights, nums, rowp, vars, weights)\<close>: one number and one more row
  pointer per staged row, no more rows than the capacity, as many weights as variables,
  within a capacity that is an \<open>int\<close>, and a last row pointer not beyond what was written.
\<close>

definition staging_ok ::
  "int \<times> int \<times> int \<times> int list \<times> int list \<times> int list \<times> 'a list \<Rightarrow> bool" where
  "staging_ok st = (case st of (sz, max_size, max_weights, nums, rp, vs, ws) \<Rightarrow>
     0 \<le> sz \<and> int (length nums) = sz \<and> int (length rp) = sz + 1 \<and> sz \<le> max_size
     \<and> length ws = length vs \<and> int (length vs) \<le> max_weights \<and> max_weights \<le> INT_MAX
     \<and> last rp \<le> int (length vs))"

definition on_staging ::
  "'a BVecInterp \<Rightarrow> int \<times> int \<times> int \<times> int list \<times> int list \<times> int list \<times> 'a list" where
  "on_staging op = (on_size op, max_on_size op, max_on_weights op,
                    on_nums op, on_rowp op, on_vars op, on_weights op)"

definition off_staging ::
  "'a BVecInterp \<Rightarrow> int \<times> int \<times> int \<times> int list \<times> int list \<times> int list \<times> 'a list" where
  "off_staging op = (off_size op, max_off_size op, max_off_weights op,
                     off_nums op, off_rowp op, off_vars op, off_weights op)"

text \<open>
  Room for one more row with the count \<open>cnt\<close>: the row arrays are not full or can be
  doubled within \<open>int\<close>, and the new row pointer is an \<open>int\<close>.
\<close>

definition can_stage ::
  "int \<times> int \<times> int \<times> int list \<times> int list \<times> int list \<times> 'a list \<Rightarrow> int \<Rightarrow> bool" where
  "can_stage st cnt = (case st of (sz, max_size, max_weights, nums, rp, vs, ws) \<Rightarrow>
     (sz < max_size \<or> (0 < max_size \<and> max_size + max_size + 1 \<le> INT_MAX))
     \<and> INT_MIN \<le> last rp + cnt)"

text \<open>
  Two inputs, two outputs, one process. Between the rows \<open>addInterp(0, [1,1], [0,1], 2)\<close>
  and \<open>addInterp(1, [3], [1], 1)\<close> comes a call with the size \<open>-1\<close>; the second scenario
  is the same without that call.
\<close>

definition unfinalized_negative :: "real BVecInterp option" where
  "unfinalized_negative =
     (case BVecInterp_new (one_rank_map 1 2) (one_rank_map 1 2) of
        Inl e \<Rightarrow> None
      | Inr op \<Rightarrow> addInterp_calls [(0, [1, 1], [0, 1], 2), (1, [], [], -1), (1, [3], [1], 1)] op)"

definition scenario_negative :: "(real BVecInterp \<times> message list) list option" where
  "scenario_negative = do { op \<leftarrow> unfinalized_negative; finalize [op] }"

definition unfinalized_valid :: "real BVecInterp option" where
  "unfinalized_valid =
     (case BVecInterp_new (one_rank_map 1 2) (one_rank_map 1 2) of
        Inl e \<Rightarrow> None
      | Inr op \<Rightarrow> addInterp_calls [(0, [1, 1], [0, 1], 2), (1, [3], [1], 1)] op)"

definition scenario_valid :: "(real BVecInterp \<times> message list) list option" where
  "scenario_valid = do { op \<leftarrow> unfinalized_valid; finalize [op] }"

section \<open>The contributions and the passes of \<open>finalize\<close> over them\<close>

text \<open>
  The entries a pass over staged rows visits, in the order of the visit. \<open>R i k\<close> is what
  row \<open>i\<close> holds when the read cursor is at \<open>k\<close>, with the cursor after the row.
\<close>

fun gather :: "('i \<Rightarrow> 'k \<Rightarrow> ('e list \<times> 'k) option) \<Rightarrow> 'i list \<Rightarrow> 'k \<Rightarrow> ('e list \<times> 'k) option" where
  "gather R [] k = Some ([], k)"
| "gather R (i # is) k = do {
     (es, k) \<leftarrow> R i k;
     (es', k) \<leftarrow> gather R is k;
     Some (es @ es', k) }"

text \<open>
  The contributions \<open>(row, column, weight)\<close> staged on this process, as the three passes
  of \<open>finalize\<close> over \<open>on_nums\<close>, \<open>on_rowp\<close>, \<open>on_vars\<close> and \<open>on_weights\<close> read them: the
  row is local (\<open>num - outOwnerRange[mpiRank]\<close>), the column global.
\<close>

definition read_on :: "'a BVecInterp \<Rightarrow> int \<Rightarrow> unit \<Rightarrow> ((int \<times> int \<times> 'a) list \<times> unit) option" where
  "read_on op i u = do {
     num \<leftarrow> rd (on_nums op) i;
     own \<leftarrow> owned (outOwnerRange op) (mpiRank op) num;
     if own then do {
       lo \<leftarrow> rd (outOwnerRange op) (mpiRank op);
       j0 \<leftarrow> rd (on_rowp op) i;
       j1 \<leftarrow> rd (on_rowp op) (i + 1);
       gather (\<lambda>j u. do {
           v \<leftarrow> rd (on_vars op) j;
           x \<leftarrow> rd (on_weights op) j;
           Some ([(num - lo, v, x)], u) })
         [j0..j1 - 1] u }
     else Some ([], u) }"

definition staged_on :: "'a BVecInterp \<Rightarrow> (int \<times> int \<times> 'a) list option" where
  "staged_on op = map_option fst (gather (read_on op) [0..on_size op - 1] ())"

text \<open>
  The contributions received from the other processes, as the passes over \<open>in_nums\<close>,
  \<open>in_weights_per_row\<close>, \<open>in_vars\<close> and \<open>in_weights\<close> read them; the cursor \<open>k\<close> runs
  through \<open>in_vars\<close> and \<open>in_weights\<close>.
\<close>

definition read_in :: "'a BVecInterp \<Rightarrow> 'a recvbuf \<Rightarrow> int \<Rightarrow> int \<Rightarrow> ((int \<times> int \<times> 'a) list \<times> int) option" where
  "read_in op inb i k = do {
     num \<leftarrow> load (in_nums inb) i;
     own \<leftarrow> owned (outOwnerRange op) (mpiRank op) num;
     if own then do {
       lo \<leftarrow> rd (outOwnerRange op) (mpiRank op);
       n \<leftarrow> load (in_weights_per_row inb) i;
       gather (\<lambda>j k. do {
           v \<leftarrow> load (in_vars inb) k;
           x \<leftarrow> load (in_weights inb) k;
           Some ([(num - lo, v, x)], k + 1) })
         [0..n - 1] k }
     else do {
       n \<leftarrow> load (in_weights_per_row inb) i;
       Some ([], k + n) } }"

definition staged_in :: "'a BVecInterp \<Rightarrow> 'a recvbuf \<Rightarrow> (int \<times> int \<times> 'a) list option" where
  "staged_in op inb = map_option fst (gather (read_in op inb) [0..in_size inb - 1] 0)"

text \<open>Whether this process owns the input variable \<open>v\<close>.\<close>

definition local_in :: "'a BVecInterp \<Rightarrow> int \<Rightarrow> bool" where
  "local_in op v \<longleftrightarrow> owned (inOwnerRange op) (mpiRank op) v = Some True"

text \<open>
  The columns and the weights that the contributions \<open>es\<close> give to row \<open>r\<close>: the local
  (or the external) columns named for the row, and the sum of the weights given for the
  row and the column \<open>c\<close>, added to 0 one after the other in the order of \<open>es\<close>.
\<close>

definition columns_of :: "'a BVecInterp \<Rightarrow> bool \<Rightarrow> (int \<times> int \<times> 'a) list \<Rightarrow> int \<Rightarrow> int list" where
  "columns_of op loc es r =
     map (\<lambda>(r', v, x). v) (filter (\<lambda>(r', v, x). r' = r \<and> local_in op v = loc) es)"

definition weight_of :: "(int \<times> int \<times> 'a::{zero,plus}) list \<Rightarrow> int \<Rightarrow> int \<Rightarrow> 'a" where
  "weight_of es r c = foldl (+) 0 (map (\<lambda>(r', v, x). x) (filter (\<lambda>(r', v, x). r' = r \<and> v = c) es))"

text \<open>
  The number of local (or external) columns the contributions name for row \<open>r\<close>, and what
  the counting passes keep true of \<open>rowp\<close> and \<open>ext_rowp\<close>: cell \<open>q\<close> holds the count of
  row \<open>q - 1\<close>.
\<close>

definition fan :: "'a BVecInterp \<Rightarrow> bool \<Rightarrow> (int \<times> int \<times> 'a) list \<Rightarrow> int \<Rightarrow> int" where
  "fan op loc es r = int (length (columns_of op loc es r))"

definition counted :: "'a BVecInterp \<Rightarrow> bool \<Rightarrow> int list \<Rightarrow> (int \<times> int \<times> 'a) list \<Rightarrow> int list \<Rightarrow> bool" where
  "counted op loc rp0 es rp \<longleftrightarrow>
     length rp = length rp0
   \<and> (\<forall>q. 0 \<le> q \<and> q < int (length rp0) \<longrightarrow> rp ! nat q = rp0 ! nat q + fan op loc es (q - 1))"

text \<open>
  The row starts that the running sums of the counts give, and what the placing passes keep
  true while the cursor of every row moves from the start of the row to its end: the cells
  from the start of a row to its cursor hold the columns placed for the row so far.
\<close>

definition row_starts :: "'a BVecInterp \<Rightarrow> bool \<Rightarrow> (int \<times> int \<times> 'a) list \<Rightarrow> int list \<Rightarrow> bool" where
  "row_starts op loc es rs \<longleftrightarrow>
     rs \<noteq> [] \<and> rs ! 0 = 0
   \<and> (\<forall>q. 0 \<le> q \<and> q + 1 < int (length rs) \<longrightarrow> rs ! nat (q + 1) = rs ! nat q + fan op loc es q)"

definition placed ::
  "'a BVecInterp \<Rightarrow> bool \<Rightarrow> int list \<Rightarrow> (int \<times> int \<times> 'a) list \<Rightarrow> int list \<Rightarrow> int cells \<Rightarrow> bool" where
  "placed op loc rs es rp cs \<longleftrightarrow>
     length rp = length rs \<and> int (length cs) = last rs \<and> last rp = last rs
   \<and> (\<forall>q. 0 \<le> q \<and> q + 1 < int (length rs) \<longrightarrow> rp ! nat q = rs ! nat q + fan op loc es q)
   \<and> (\<forall>q p. 0 \<le> q \<and> q + 1 < int (length rs) \<and> rs ! nat q \<le> p \<and> p < rp ! nat q \<longrightarrow>
          (\<exists>v. load cs p = Some v \<and> v \<in> set (columns_of op loc es q)))
   \<and> (\<forall>r v x. (r, v, x) \<in> set es \<and> local_in op v = loc \<longrightarrow>
          0 \<le> r \<and> r + 1 < int (length rs)
        \<and> (\<exists>p. rs ! nat r \<le> p \<and> p < rp ! nat r \<and> load cs p = Some v))"

definition placed_both ::
  "'a BVecInterp \<Rightarrow> int list \<Rightarrow> int list \<Rightarrow> (int \<times> int \<times> 'a) list
     \<Rightarrow> int list \<times> int cells \<times> int list \<times> int cells \<Rightarrow> bool" where
  "placed_both op rs ers es st =
     (case st of (rp, cs, erp, ecs) \<Rightarrow> placed op True rs es rp cs \<and> placed op False ers es erp ecs)"

text \<open>
  What the weight passes keep true: every cell of a row holds the sum of the weights
  given so far for the row and the column of the cell.
\<close>

definition summed ::
  "int list \<Rightarrow> int list \<Rightarrow> (int \<times> int \<times> 'a::{zero,plus}) list \<Rightarrow> 'a list \<Rightarrow> bool" where
  "summed rp cs es ws \<longleftrightarrow>
     length ws = length cs
   \<and> (\<forall>q p. 0 \<le> q \<and> q + 1 < int (length rp) \<and> rp ! nat q \<le> p \<and> p < rp ! nat (q + 1) \<longrightarrow>
          ws ! nat p = weight_of es q (cs ! nat p))"

definition summed_both ::
  "int list \<Rightarrow> int list \<Rightarrow> int list \<Rightarrow> int list \<Rightarrow> (int \<times> int \<times> 'a::{zero,plus}) list
     \<Rightarrow> 'a list \<times> 'a list \<Rightarrow> bool" where
  "summed_both rp cs erp ecs es st =
     (case st of (ws, ews) \<Rightarrow> summed rp cs es ws \<and> summed erp ecs es ews)"

text \<open>
  The column structure the weight passes work on: two well-formed CSR structures with
  distinct columns in every row, local columns in the one and external ones in the other.
\<close>

definition split_pattern ::
  "'a BVecInterp \<Rightarrow> int list \<Rightarrow> int list \<Rightarrow> int list \<Rightarrow> int list \<Rightarrow> bool" where
  "split_pattern op rp cs erp ecs \<longleftrightarrow>
     wf_csr (N op) rp cs \<and> wf_csr (N op) erp ecs
   \<and> (\<forall>i < nat (N op). distinct (csr_row rp cs i) \<and> distinct (csr_row erp ecs i)
         \<and> (\<forall>c \<in> set (csr_row rp cs i). local_in op c)
         \<and> (\<forall>c \<in> set (csr_row erp ecs i). \<not> local_in op c))"

text \<open>
  Two processes with two inputs and two outputs each. Row 0 of rank 0 is given the input 1
  twice by rank 0 itself (weights 1 and 4) and the input 3 once by rank 0 (weight 2) and
  once by rank 1 (weight 8).
\<close>

definition unfinalized_duplicates :: "real BVecInterp list option" where
  "unfinalized_duplicates =
     (case (BVecInterp_new (two_rank_map 1 0) (two_rank_map 1 0),
            BVecInterp_new (two_rank_map 1 1) (two_rank_map 1 1)) of
        (Inr op0, Inr op1) \<Rightarrow> do {
          op0 \<leftarrow> addInterp_calls [(0, [1, 2], [1, 3], 2), (0, [4], [1], 1)] op0;
          op1 \<leftarrow> addInterp_calls [(0, [8], [3], 1)] op1;
          Some [op0, op1] }
      | _ \<Rightarrow> None)"

section \<open>Floating-point scalars\<close>

text \<open>
  Modelled from the spec: the scalar type \<open>TacsScalar\<close> is declared outside the sources at
  hand; the spec has it real or complex floating point. \<open>double\<close> is the real one, IEEE 754
  binary64 with rounding to nearest, ties to even: \<open>Double m e\<close> is the number \<open>m * 2^e\<close>,
  kept with \<open>m\<close> odd (or \<open>m = 0\<close> and \<open>e = 0\<close>, the only zero). Every operation rounds the
  exact result to 53 bits. The exponent here has no bounds: overflow, subnormal numbers,
  infinities and NaN are not modelled, and a division by zero, which \<open>finalize\<close> never
  does, gives 0.
\<close>

datatype double = Double int int

text \<open>The number of bits of \<open>n\<close>, and \<open>n * 2^e\<close> without the trailing zero bits of \<open>n\<close>.\<close>

function bitlen :: "int \<Rightarrow> int" where
  "bitlen n = (if n \<le> 0 then 0 else 1 + bitlen (n div 2))"
  by pat_completeness auto
termination
  by (relation "measure nat") auto

function strip_zeros :: "int \<Rightarrow> int \<Rightarrow> int \<times> int" where
  "strip_zeros n e = (if n \<le> 0 then (0, 0) else if even n then strip_zeros (n div 2) (e + 1) else (n, e))"
  by pat_completeness auto
termination
  by (relation "measure (\<lambda>(n, e). nat n)") auto

text \<open>
  The magnitude \<open>n * 2^e\<close> rounded to 53 bits: the bits below the 53 leading ones are cut
  off, and the result is the nearer neighbour, the even one on a tie.
\<close>

definition round53 :: "int \<Rightarrow> int \<Rightarrow> int \<times> int" where
  "round53 n e =
     (if bitlen n \<le> 53 then strip_zeros n e
      else let k = nat (bitlen n - 53);
               q = n div 2 ^ k;
               r = n mod 2 ^ k;
               half = 2 ^ (k - 1)
           in strip_zeros (if r > half \<or> (r = half \<and> odd q) then q + 1 else q) (e + int k))"

definition rounded :: "int \<Rightarrow> int \<Rightarrow> double" where
  "rounded m e = (case round53 \<bar>m\<bar> e of (n, e') \<Rightarrow> Double (sgn m * n) e')"

definition double_add :: "double \<Rightarrow> double \<Rightarrow> double" where
  "double_add x y = (case (x, y) of (Double m1 e1, Double m2 e2) \<Rightarrow>
     let e = min e1 e2
     in rounded (m1 * 2 ^ nat (e1 - e) + m2 * 2 ^ nat (e2 - e)) e)"

definition double_mult :: "double \<Rightarrow> double \<Rightarrow> double" where
  "double_mult x y = (case (x, y) of (Double m1 e1, Double m2 e2) \<Rightarrow> rounded (m1 * m2) (e1 + e2))"

text \<open>
  The quotient is computed with 64 bits more than the divisor has, and one more bit that
  tells whether the division left a remainder; then it is rounded.
\<close>

definition double_divide :: "double \<Rightarrow> double \<Rightarrow> double" where
  "double_divide x y = (case (x, y) of (Double m1 e1, Double m2 e2) \<Rightarrow>
     if m2 = 0 then Double 0 0
     else let s = nat (64 + bitlen \<bar>m2\<bar>);
              n = \<bar>m1\<bar> * 2 ^ s;
              q = n div \<bar>m2\<bar>;
              r = n mod \<bar>m2\<bar>
          in rounded (sgn m1 * sgn m2 * (2 * q + (if r = 0 then 0 else 1))) (e1 - e2 - int s - 1))"

instantiation double :: "{zero,one,plus,times,inverse}"
begin

definition zero_double :: double where
  "zero_double = Double 0 0"

definition one_double :: double where
  "one_double = Double 1 0"

definition plus_double :: "double \<Rightarrow> double \<Rightarrow> double" where
  "plus_double x y = double_add x y"

definition times_double :: "double \<Rightarrow> double \<Rightarrow> double" where
  "times_double x y = double_mult x y"

definition divide_double :: "double \<Rightarrow> double \<Rightarrow> double" where
  "divide_double x y = double_divide x y"

definition inverse_double :: "double \<Rightarrow> double" where
  "inverse_double x = double_divide (Double 1 0) x"

instance ..

end

text \<open>
  One process, block size 1, one output and two inputs with the weights 1 and 1, which
  \<open>finalize\<close> makes 1/2 and 1/2.
\<close>

definition scenario_halves :: "(double BVecInterp \<times> message list) list option" where
  "scenario_halves =
     (case BVecInterp_new (one_rank_map 1 2) (one_rank_map 1 1) of
        Inl e \<Rightarrow> None
      | Inr op \<Rightarrow> do {
          op \<leftarrow> addInterp_calls [(0, [Double 1 0, Double 1 0], [0, 1], 2)] op;
          finalize [op] })"

section \<open>The block-specific kernels against the generic ones\<close>

lemma for_loop_Nil_fun: "for_loop [] body = Some"
  by (rule ext) simp

lemma for_loop_Cons_fun:
  "for_loop (i # is) body = (\<lambda>s. Option.bind (body i s) (for_loop is body))"
  by (rule ext) simp

lemmas unroll_block = for_loop_Nil_fun for_loop_Cons_fun upto_rec1

lemma MultAdd1_eq_Gen:
  "BVecInterpMultAdd1 bs nrows rp cs ws x y h = BVecInterpMultAddGen 1 nrows rp cs ws x y h"
  unfolding BVecInterpMultAdd1_def BVecInterpMultAddGen_def by (simp add: unroll_block)

lemma MultAdd2_eq_Gen:
  "BVecInterpMultAdd2 bs nrows rp cs ws x y h = BVecInterpMultAddGen 2 nrows rp cs ws x y h"
  unfolding BVecInterpMultAdd2_def BVecInterpMultAddGen_def by (simp add: unroll_block)

lemma MultAdd3_eq_Gen:
  "BVecInterpMultAdd3 bs nrows rp cs ws x y h = BVecInterpMultAddGen 3 nrows rp cs ws x y h"
  unfolding BVecInterpMultAdd3_def BVecInterpMultAddGen_def by (simp add: unroll_block)

lemma MultAdd5_eq_Gen:
  "BVecInterpMultAdd5 bs nrows rp cs ws x y h = BVecInterpMultAddGen 5 nrows rp cs ws x y h"
  unfolding BVecInterpMultAdd5_def BVecInterpMultAddGen_def by (simp add: unroll_block)

lemma MultAdd6_eq_Gen:
  "BVecInterpMultAdd6 bs nrows rp cs ws x y h = BVecInterpMultAddGen 6 nrows rp cs ws x y h"
  unfolding BVecInterpMultAdd6_def BVecInterpMultAddGen_def by (simp add: unroll_block)

lemma MultTransposeAdd1_eq_Gen:
  "BVecInterpMultTransposeAdd1 bs nrows rp cs ws x y h
     = BVecInterpMultTransposeAddGen 1 nrows rp cs ws x y h"
  unfolding BVecInterpMultTransposeAdd1_def BVecInterpMultTransposeAddGen_def
  by (simp add: unroll_block)

lemma MultTransposeAdd2_eq_Gen:
  "BVecInterpMultTransposeAdd2 bs nrows rp cs ws x y h
     = BVecInterpMultTransposeAddGen 2 nrows rp cs ws x y h"
  unfolding BVecInterpMultTransposeAdd2_def BVecInterpMultTransposeAddGen_def
  by (simp add: unroll_block)

lemma MultTransposeAdd3_eq_Gen:
  "BVecInterpMultTransposeAdd3 bs nrows rp cs ws x y h
     = BVecInterpMultTransposeAddGen 3 nrows rp cs ws x y h"
  unfolding BVecInterpMultTransposeAdd3_def BVecInterpMultTransposeAddGen_def
  by (simp add: unroll_block)

lemma MultTransposeAdd5_eq_Gen:
  "BVecInterpMultTransposeAdd5 bs nrows rp cs ws x y h
     = BVecInterpMultTransposeAddGen 5 nrows rp cs ws x y h"
  unfolding BVecInterpMultTransposeAdd5_def BVecInterpMultTransposeAddGen_def
  by (simp add: unroll_block)

lemma MultTransposeAdd6_eq_Gen:
  "BVecInterpMultTransposeAdd6 bs nrows rp cs ws x y h
     = BVecInterpMultTransposeAddGen 6 nrows rp cs ws x y h"
  unfolding BVecInterpMultTransposeAdd6_def BVecInterpMultTransposeAddGen_def
  by (simp add: unroll_block)

text \<open>
  Claim C4. For each block size \<open>b\<close> among 1, 2, 3, 5 and 6, the kernels the constructor
  selects for \<open>b\<close>, called with block size \<open>b\<close>, return exactly what the generic kernels
  return, on every input: the same heap, or the same failure on an access outside an array.
  Nothing is assumed of the scalar type beyond its having \<open>+\<close> and \<open>*\<close>, so the additions
  happen in the same order.
\<close>

theorem specialised_kernels_eq_generic:
  assumes "b \<in> {1, 2, 3, 5, 6}"
  shows "select_multadd b b nrows rp cs ws x y h
           = BVecInterpMultAddGen b nrows rp cs ws x y h
       \<and> select_multtransadd b b nrows rp cs ws x y h
           = BVecInterpMultTransposeAddGen b nrows rp cs ws x y h"
  using assms
  by (auto simp: select_multadd_def select_multtransadd_def
        MultAdd1_eq_Gen MultAdd2_eq_Gen MultAdd3_eq_Gen MultAdd5_eq_Gen MultAdd6_eq_Gen
        MultTransposeAdd1_eq_Gen MultTransposeAdd2_eq_Gen MultTransposeAdd3_eq_Gen
        MultTransposeAdd5_eq_Gen MultTransposeAdd6_eq_Gen)

theorem specialised_kernels_eq_generic_witness:
  "(3::int) \<in> {1, 2, 3, 5, 6}
   \<and> select_multadd 3 3 1 [0, 1] [0] [2::int] (Vec 0) (Vec 1)
        ((\<lambda>_. [])(Vec 0 := [1, 2, 3], Vec 1 := [10, 20, 30]))
       = BVecInterpMultAddGen 3 1 [0, 1] [0] [2] (Vec 0) (Vec 1)
        ((\<lambda>_. [])(Vec 0 := [1, 2, 3], Vec 1 := [10, 20, 30]))
   \<and> select_multtransadd 3 3 1 [0, 1] [0] [2::int] (Vec 0) (Vec 1)
        ((\<lambda>_. [])(Vec 0 := [1, 2, 3], Vec 1 := [10, 20, 30]))
       = BVecInterpMultTransposeAddGen 3 1 [0, 1] [0] [2] (Vec 0) (Vec 1)
        ((\<lambda>_. [])(Vec 0 := [1, 2, 3], Vec 1 := [10, 20, 30]))"
  using specialised_kernels_eq_generic [of 3 1 "[0, 1]" "[0]" "[2::int]" "Vec 0" "Vec 1"
      "(\<lambda>_. [])(Vec 0 := [1, 2, 3], Vec 1 := [10, 20, 30])"]
  by simp

section \<open>The scenario S1\<close>

text \<open>
  Claim C1. On one process with block size 1, output size 2 and input size 3, after
  \<open>addInterp(0, [1,1], [0,1], 2)\<close>, \<open>addInterp(1, [2], [2], 1)\<close> and \<open>finalize\<close>, which
  prints nothing, the local CSR structure is \<open>rowp = [0,2,3]\<close>, \<open>cols = [0,1,2]\<close>,
  \<open>weights = [0.5, 0.5, 1.0]\<close>, and \<open>mult\<close> on the input \<open>[4,6,10]\<close> leaves \<open>[5, 10]\<close> in the
  output vector, whatever the output vector held and whatever the exchange delivers.
\<close>

theorem scenario_S1_result:
  "case scenario_S1 of
     Some [(op, err)] \<Rightarrow>
       err = [] \<and> rowp op = [0, 2, 3] \<and> cols op = [0, 1, 2] \<and> weights op = [1/2, 1/2, 1] \<and>
       map_option (\<lambda>wd. heap wd (Vec 1))
         (mult op halo 0 1
            \<lparr> heap = (\<lambda>_. [])(Vec 0 := [4, 6, 10], Vec 1 := [y0, y1]), stderr = [] \<rparr>)
         = Some [5, 10]
   | _ \<Rightarrow> False"
  by code_simp

section \<open>Use before \<open>finalize\<close>\<close>

lemma BVecInterp_new_vecDist: "BVecInterp_new im om = Inr op \<Longrightarrow> vecDist op = None"
  by (auto simp: BVecInterp_new_def split: if_splits)

lemma addInterp_vecDist: "addInterp num w vars cnt op = Some op' \<Longrightarrow> vecDist op' = vecDist op"
  by (auto simp: addInterp_def split: bind_splits if_splits prod.splits)

lemma addInterp_calls_vecDist: "addInterp_calls calls op = Some op' \<Longrightarrow> vecDist op' = vecDist op"
proof (induction calls arbitrary: op)
  case Nil
  then show ?case by simp
next
  case (Cons c calls)
  obtain num w vars cnt where c: "c = (num, w, vars, cnt)" by (cases c) auto
  from Cons.prems c obtain op1 where a: "addInterp num w vars cnt op = Some op1"
    and b: "addInterp_calls calls op1 = Some op'"
    by (auto simp: bind_eq_Some_conv)
  from Cons.IH[OF b] addInterp_vecDist[OF a] show ?case by simp
qed

text \<open>
  Claim C6. An operator that was constructed and has staged any rows, but on which
  \<open>finalize\<close> has not run, rejects \<open>mult\<close>, \<open>multAdd\<close>, \<open>multTranspose\<close> and
  \<open>multTransposeAdd\<close>: each prints the message "Must call finalize before using BVecInterp
  object" with the rank and returns; the heap, with the output vector in it, is what it
  was, and so is the operator, which these functions do not return.
\<close>

theorem use_before_finalize_rejected:
  assumes "BVecInterp_new im om = Inr op0" and "addInterp_calls calls op0 = Some op"
  shows "mult op halo inVec outVec wd
           = Some (wd\<lparr> stderr := stderr wd @ [ErrMustFinalize (mpiRank op)] \<rparr>)
       \<and> multAdd op halo inVec addVec outVec wd
           = Some (wd\<lparr> stderr := stderr wd @ [ErrMustFinalize (mpiRank op)] \<rparr>)
       \<and> multTranspose op arrive inVec outVec wd
           = Some (wd\<lparr> stderr := stderr wd @ [ErrMustFinalize (mpiRank op)] \<rparr>)
       \<and> multTransposeAdd op arrive inVec addVec outVec wd
           = Some (wd\<lparr> stderr := stderr wd @ [ErrMustFinalize (mpiRank op)] \<rparr>)"
proof -
  have "vecDist op = None"
    using addInterp_calls_vecDist[OF assms(2)] BVecInterp_new_vecDist[OF assms(1)] by simp
  then show ?thesis
    by (simp add: mult_def multAdd_def multTranspose_def multTransposeAdd_def)
qed

theorem use_before_finalize_rejected_witness:
  "case unfinalized_S1 of
     None \<Rightarrow> False
   | Some op \<Rightarrow>
       map_option (\<lambda>wd. (heap wd (Vec 2), heap wd (Vec 3), stderr wd))
         (mult op (\<lambda>_. 0) 2 3
            \<lparr> heap = (\<lambda>_. [])(Vec 2 := [4, 6, 10], Vec 3 := [7, 8]), stderr = [] \<rparr>)
         = Some ([4, 6, 10], [7, 8], [ErrMustFinalize 0])
     \<and> map_option (\<lambda>wd. (heap wd (Vec 2), heap wd (Vec 3), stderr wd))
         (multTransposeAdd op (\<lambda>v. v) 3 3 2
            \<lparr> heap = (\<lambda>_. [])(Vec 2 := [4, 6, 10], Vec 3 := [7, 8]), stderr = [] \<rparr>)
         = Some ([4, 6, 10], [7, 8], [ErrMustFinalize 0])"
proof -
  have "map_option mpiRank unfinalized_S1 = Some 0" by code_simp
  then obtain op where c: "unfinalized_S1 = Some op" and d: "mpiRank op = 0" by auto
  then obtain op0 where a: "BVecInterp_new (one_rank_map 1 3) (one_rank_map 1 2) = Inr op0"
    and b: "addInterp_calls [(0, [1, 1], [0, 1], 2), (1, [2], [2], 1)] op0 = Some op"
    by (auto simp: unfinalized_S1_def split: sum.splits)
  note t1 = use_before_finalize_rejected[OF a b, where halo = "\<lambda>_. 0" and arrive = "\<lambda>v. v"
        and inVec = 2 and outVec = 3 and addVec = 2
        and wd = "\<lparr> heap = (\<lambda>_. [])(Vec 2 := [4, 6, 10], Vec 3 := [7, 8]), stderr = [] \<rparr>"]
  note t2 = use_before_finalize_rejected[OF a b, where halo = "\<lambda>_. 0" and arrive = "\<lambda>v. v"
        and inVec = 3 and addVec = 3 and outVec = 2
        and wd = "\<lparr> heap = (\<lambda>_. [])(Vec 2 := [4, 6, 10], Vec 3 := [7, 8]), stderr = [] \<rparr>"]
  show ?thesis
    unfolding c by (simp add: t1 t2 d)
qed

section \<open>The generic kernels and the contract\<close>








section \<open>\<open>multAdd\<close> against \<open>mult\<close>\<close>

lemma for_loop_rel:
  assumes "\<And>i s t. i \<in> set is \<Longrightarrow> R s t \<Longrightarrow> rel_option R (f i s) (g i t)"
    and "R s t"
  shows "rel_option R (for_loop is f s) (for_loop is g t)"
  using assms
proof (induction "is" arbitrary: s t)
  case Nil
  then show ?case by simp
next
  case (Cons i "is")
  have "rel_option R (f i s) (g i t)" using Cons.prems by simp
  then show ?case
  proof (cases rule: option.rel_cases)
    case None
    then show ?thesis by simp
  next
    case (Some s' t')
    then show ?thesis using Cons.IH[of s' t'] Cons.prems(1) by simp
  qed
qed

lemma map2_add_update:
  "length z = length ys \<Longrightarrow> n < length ys \<Longrightarrow>
   (map2 (+) z ys)[n := z ! n + v] = map2 (+) z (ys[n := v])"
  by (auto intro!: nth_equalityI simp: nth_list_update)

lemma mult_stmt_shifted:
  fixes z :: "'a::{plus,times} list"
  assumes "shifted y z h1 h2" and "x \<noteq> y"
    and assoc: "\<forall>a b c :: 'a. (a + b) + c = a + (b + c)"
  shows "rel_option (shifted y z) (mult_stmt cs ws x y wp j yi xi h1) (mult_stmt cs ws x y wp j yi xi h2)"
proof -
  have l: "length (h1 y) = length (h2 y)" "length z = length (h2 y)" and x: "h1 x = h2 x"
    and y: "h1 y = map2 (+) z (h2 y)"
    using assms(1,2) by (auto simp: shifted_def)
  have a: "(a + b) + c = a + (b + c)" for a b c :: 'a using assoc by simp
  show ?thesis
    using assms(1,2) l
    by (auto simp: mult_stmt_def rd_def wr_def shifted_def x y a map2_add_update
        split: bind_splits if_splits)
qed

lemma csr_loop_rel:
  assumes entry: "\<And>i j wp g1 g2. R g1 g2 \<Longrightarrow> rel_option R (entry i j wp g1) (entry i j wp g2)"
    and "R h1 h2"
  shows "rel_option R (csr_loop n rp entry h1) (csr_loop n rp entry h2)"
proof -
  define Q where "Q = (\<lambda>s t. fst s = (fst t :: int) \<and> R (snd s) (snd t))"
  have entries: "rel_option Q
      (for_loop js (\<lambda>j (wp, h). do { h' \<leftarrow> entry i j wp h; Some (wp + 1, h') }) s)
      (for_loop js (\<lambda>j (wp, h). do { h' \<leftarrow> entry i j wp h; Some (wp + 1, h') }) t)"
    if "Q s t" for s t js i
    using that
  proof (induction js arbitrary: s t)
    case Nil
    then show ?case by simp
  next
    case (Cons j js)
    obtain wp g1 g2 where st: "s = (wp, g1)" "t = (wp, g2)" and g: "R g1 g2"
      using Cons.prems by (cases s; cases t) (auto simp: Q_def)
    from entry[OF g, of i j wp] show ?case
    proof (cases rule: option.rel_cases)
      case None
      then show ?thesis by (simp add: st)
    next
      case (Some g1' g2')
      then have "Q (wp + 1, g1') (wp + 1, g2')" by (simp add: Q_def)
      from Cons.IH[OF this] Some show ?thesis by (simp add: st)
    qed
  qed
  have rows: "rel_option Q
      (for_loop is (\<lambda>i (wp, h). do {
             j0 \<leftarrow> rd rp i;
             end \<leftarrow> rd rp (i + 1);
             for_loop [j0..end - 1]
               (\<lambda>j (wp, h). do { h' \<leftarrow> entry i j wp h; Some (wp + 1, h') })
               (wp, h) }) s)
      (for_loop is (\<lambda>i (wp, h). do {
             j0 \<leftarrow> rd rp i;
             end \<leftarrow> rd rp (i + 1);
             for_loop [j0..end - 1]
               (\<lambda>j (wp, h). do { h' \<leftarrow> entry i j wp h; Some (wp + 1, h') })
               (wp, h) }) t)"
    if "Q s t" for s t "is"
    using that
  proof (induction "is" arbitrary: s t)
    case Nil
    then show ?case by simp
  next
    case (Cons i "is")
    obtain wp g1 g2 where st: "s = (wp, g1)" "t = (wp, g2)" and g: "R g1 g2"
      using Cons.prems by (cases s; cases t) (auto simp: Q_def)
    have q: "Q (wp, g1) (wp, g2)" using g by (simp add: Q_def)
    show ?case
    proof (cases "rd rp i")
      case None
      then show ?thesis by (simp add: st)
    next
      case (Some j0)
      note j0 = this
      show ?thesis
      proof (cases "rd rp (i + 1)")
        case None
        then show ?thesis using j0 by (simp add: st)
      next
        case (Some j1)
        from entries[OF q, of "[j0..j1 - 1]" i] show ?thesis
        proof (cases rule: option.rel_cases)
          case None
          then show ?thesis using j0 Some by (simp add: st)
        next
          case (Some s' t')
          from Cons.IH[OF Some(3)] Some(1,2) j0 \<open>rd rp (i + 1) = Some j1\<close>
          show ?thesis by (simp add: st)
        qed
      qed
    qed
  qed
  have "Q (0, h1) (0, h2)" using assms(2) by (simp add: Q_def)
  from rows[OF this, of "[0..n - 1]"] show ?thesis
    unfolding csr_loop_def by (cases rule: option.rel_cases) (auto simp: Q_def)
qed

lemma BVecInterpMultAddGen_shifted:
  fixes z :: "'a::{plus,times} list"
  assumes "shifted y z h1 h2" and "x \<noteq> y"
    and assoc: "\<forall>a b c :: 'a. (a + b) + c = a + (b + c)"
  shows "rel_option (shifted y z) (BVecInterpMultAddGen b n rp cs ws x y h1)
           (BVecInterpMultAddGen b n rp cs ws x y h2)"
  unfolding BVecInterpMultAddGen_def
proof (rule csr_loop_rel[where R = "shifted y z"])
  show "shifted y z h1 h2" by (rule assms(1))
next
  fix i j wp g1 g2 assume g: "shifted y z g1 g2"
  show "rel_option (shifted y z)
          (for_loop [0..b - 1] (\<lambda>k. mult_stmt cs ws x y wp j (b * i + k) (\<lambda>c. b * c + k)) g1)
          (for_loop [0..b - 1] (\<lambda>k. mult_stmt cs ws x y wp j (b * i + k) (\<lambda>c. b * c + k)) g2)"
    by (rule for_loop_rel[where R = "shifted y z", OF _ g]) (rule mult_stmt_shifted[OF _ assms(2) assoc])
qed

lemma select_multadd_Gen:
  "select_multadd b b n rp cs ws x y h = BVecInterpMultAddGen b n rp cs ws x y h"
  by (simp add: select_multadd_def MultAdd1_eq_Gen MultAdd2_eq_Gen MultAdd3_eq_Gen
      MultAdd5_eq_Gen MultAdd6_eq_Gen)

lemma select_multtransadd_Gen:
  "select_multtransadd b b n rp cs ws x y h = BVecInterpMultTransposeAddGen b n rp cs ws x y h"
  by (simp add: select_multtransadd_def MultTransposeAdd1_eq_Gen MultTransposeAdd2_eq_Gen
      MultTransposeAdd3_eq_Gen MultTransposeAdd5_eq_Gen MultTransposeAdd6_eq_Gen)

lemma BVecInterp_new_kernels: "BVecInterp_new im om = Inr op \<Longrightarrow> kernels_ok op"
  by (auto simp: BVecInterp_new_def kernels_ok_def split: if_splits)

lemma addInterp_kernels: "addInterp num w vars cnt op = Some op' \<Longrightarrow> kernels_ok op' = kernels_ok op"
  by (auto simp: addInterp_def kernels_ok_def split: bind_splits if_splits prod.splits)

lemma addInterp_calls_kernels: "addInterp_calls calls op = Some op' \<Longrightarrow> kernels_ok op' = kernels_ok op"
proof (induction calls arbitrary: op)
  case Nil
  then show ?case by simp
next
  case (Cons c calls)
  obtain num w vars cnt where c: "c = (num, w, vars, cnt)" by (cases c) auto
  from Cons.prems c obtain op1 where a: "addInterp num w vars cnt op = Some op1"
    and b: "addInterp_calls calls op1 = Some op'"
    by (auto simp: bind_eq_Some_conv)
  from Cons.IH[OF b] addInterp_kernels[OF a] show ?case by simp
qed

lemma finalize_assemble_fields:
  assumes "finalize_assemble op inb = Some (op', err)"
  shows "vecDist op' \<noteq> None" and "multadd op' = multadd op" and "multtransadd op' = multtransadd op"
    and "bsize op' = bsize op" and "N op' = N op"
  using assms
  by (auto simp: finalize_assemble_def split: bind_splits prod.splits)

lemma map2_add_zeros:
  fixes z :: "'a::{zero,plus} list"
  assumes "\<forall>a :: 'a. a + 0 = a"
  shows "map2 (+) z (replicate (length z) 0) = z"
  using assms by (induction z) auto

lemma shifted_update:
  "shifted y z h1 h2 \<Longrightarrow> r \<noteq> y \<Longrightarrow> shifted y z (h1(r := v)) (h2(r := v))"
  by (auto simp: shifted_def)

lemma multadd_Gen:
  fixes op :: "'a::{plus,times} BVecInterp"
  assumes k: "kernels_ok op"
  shows "multadd op (bsize op) = BVecInterpMultAddGen (bsize op)"
proof (intro ext)
  fix n rp cs ws x y h
  show "multadd op (bsize op) n rp cs ws x y h = BVecInterpMultAddGen (bsize op) n rp cs ws x y h"
    using k by (simp add: kernels_ok_def select_multadd_Gen)
qed

lemma shifted_start:
  fixes hp :: "'a::{zero,plus} heap"
  assumes "length (hp z) = length (hp y)" and zero: "\<forall>a :: 'a. a + 0 = a"
  shows "shifted y (hp z) (if y \<noteq> z then hp(y := copyValues (hp z) (hp y)) else hp)
           (hp(y := zeroEntries (hp y)))"
proof -
  have "map2 (+) (hp z) (replicate (length (hp z)) 0) = hp z" by (rule map2_add_zeros[OF zero])
  then have e: "map2 (+) (hp z) (replicate (length (hp y)) 0) = hp z"
    unfolding assms(1) .
  show ?thesis
  proof (cases "y = z")
    case True
    then show ?thesis using e unfolding shifted_def zeroEntries_def by simp
  next
    case False
    then show ?thesis using e assms(1) unfolding shifted_def zeroEntries_def copyValues_def by simp
  qed
qed

text \<open>
  Claim C8, as the code has it. On a finalised operator, with the input vector distinct
  from the output vector: \<open>multAdd(x, z, y)\<close> with \<open>z\<close> distinct from \<open>y\<close> is the call in place,
  \<open>multAdd(x, y, y)\<close>, after \<open>z\<close> was copied into \<open>y\<close>, and the call in place makes no copy;
  \<open>mult(x, y)\<close> is the call in place after \<open>y\<close> was set to zero. So the terms of the product
  are added into \<open>y\<close> one after the other, by the same two kernel calls, starting from
  \<open>z\<close> where \<open>mult\<close> starts from zero. Where the addition of the scalars is associative
  with unit 0, \<open>multAdd\<close> then leaves in \<open>y\<close> the sum of \<open>z\<close> and of what \<open>mult(x, y)\<close> leaves
  there, component by component, and fails exactly when \<open>mult\<close> does, for \<open>z\<close> distinct from
  \<open>y\<close> and for \<open>z\<close> being \<open>y\<close>.
\<close>

theorem multAdd_adds_to_addVec:
  fixes op :: "'a::{zero,plus,times,inverse} BVecInterp"
  assumes "BVecInterp_new im om = Inr op0"
    and "addInterp_calls calls op0 = Some op1"
    and "finalize_assemble op1 inb = Some (op, err)"
    and "inVec \<noteq> outVec"
    and "length (heap wd (Vec addVec)) = length (heap wd (Vec outVec))"
  shows "(addVec \<noteq> outVec \<longrightarrow>
            multAdd op halo inVec addVec outVec wd
              = multAdd op halo inVec outVec outVec
                  (wd\<lparr> heap := (heap wd)(Vec outVec := heap wd (Vec addVec)) \<rparr>))
       \<and> mult op halo inVec outVec wd
            = multAdd op halo inVec outVec outVec
                (wd\<lparr> heap := (heap wd)(Vec outVec := zeroEntries (heap wd (Vec outVec))) \<rparr>)
       \<and> ((\<forall>a b c :: 'a. (a + b) + c = a + (b + c)) \<and> (\<forall>a :: 'a. a + 0 = a) \<longrightarrow>
           rel_option
             (\<lambda>w2 w1. heap w2 (Vec outVec) = map2 (+) (heap wd (Vec addVec)) (heap w1 (Vec outVec))
                      \<and> (\<forall>r. r \<noteq> Vec outVec \<longrightarrow> heap w2 r = heap w1 r)
                      \<and> stderr w2 = stderr w1)
             (multAdd op halo inVec addVec outVec wd)
             (mult op halo inVec outVec wd))"
proof -
  have k: "kernels_ok op"
    using BVecInterp_new_kernels[OF assms(1)] addInterp_calls_kernels[OF assms(2)]
      finalize_assemble_fields(2,3,4)[OF assms(3)]
    by (simp add: kernels_ok_def)
  obtain vd where vd: "vecDist op = Some vd"
    using finalize_assemble_fields(1)[OF assms(3)] by auto
  let ?y = "Vec outVec" and ?x = "Vec inVec"
  let ?z = "heap wd (Vec addVec)"
  let ?h1 = "if ?y \<noteq> Vec addVec then (heap wd)(?y := copyValues ?z (heap wd ?y)) else heap wd"
  let ?h2 = "(heap wd)(?y := zeroEntries (heap wd ?y))"
  have xy: "?x \<noteq> ?y" using assms(4) by simp
  note ma = multadd_Gen[OF k]
  have h1: "(if outVec \<noteq> addVec
             then (heap wd)(?y := copyValues ?z (heap wd ?y)) else heap wd) = ?h1"
    by simp
  have main: "rel_option
           (\<lambda>w2 w1. heap w2 ?y = map2 (+) ?z (heap w1 ?y)
                    \<and> (\<forall>r. r \<noteq> ?y \<longrightarrow> heap w2 r = heap w1 r)
                    \<and> stderr w2 = stderr w1)
           (multAdd op halo inVec addVec outVec wd)
           (mult op halo inVec outVec wd)"
    if assoc: "\<forall>a b c :: 'a. (a + b) + c = a + (b + c)" and zero: "\<forall>a :: 'a. a + 0 = a"
  proof -
    have s0: "shifted ?y ?z ?h1 ?h2"
      by (rule shifted_start[OF assms(5) zero])
    have first: "rel_option (shifted ?y ?z)
        (BVecInterpMultAddGen (bsize op) (N op) (rowp op) (cols op) (weights op) ?x ?y ?h1)
        (BVecInterpMultAddGen (bsize op) (N op) (rowp op) (cols op) (weights op) ?x ?y ?h2)"
      by (rule BVecInterpMultAddGen_shifted[OF s0 xy assoc])
    have second: "rel_option (shifted ?y ?z)
        (BVecInterpMultAddGen (bsize op) (N op) (ext_rowp op) (ext_cols op) (ext_weights op) XExt ?y
           (g1(XExt := forward halo (bsize op * num_ext_vars op))))
        (BVecInterpMultAddGen (bsize op) (N op) (ext_rowp op) (ext_cols op) (ext_weights op) XExt ?y
           (g2(XExt := forward halo (bsize op * num_ext_vars op))))"
      if "shifted ?y ?z g1 g2" for g1 g2
      by (rule BVecInterpMultAddGen_shifted[OF shifted_update[OF that] _ assoc]) simp_all
    show ?thesis
      using first
    proof (cases rule: option.rel_cases)
      case None
      then show ?thesis unfolding multAdd_def mult_def vd ma h1 by simp
    next
      case (Some g1 g2)
      note g = this
      from second[OF Some(3)] show ?thesis
      proof (cases rule: option.rel_cases)
        case None
        then show ?thesis using g(1,2) unfolding multAdd_def mult_def vd ma h1 by simp
      next
        case (Some f1 f2)
        then show ?thesis using g(1,2) unfolding multAdd_def mult_def vd ma h1
          by (simp add: shifted_def)
      qed
    qed
  qed
  have copy: "addVec \<noteq> outVec \<longrightarrow>
            multAdd op halo inVec addVec outVec wd
              = multAdd op halo inVec outVec outVec
                  (wd\<lparr> heap := (heap wd)(Vec outVec := heap wd (Vec addVec)) \<rparr>)"
    unfolding multAdd_def vd copyValues_def by (simp split: bind_splits)
  have zeroed: "mult op halo inVec outVec wd
            = multAdd op halo inVec outVec outVec
                (wd\<lparr> heap := (heap wd)(Vec outVec := zeroEntries (heap wd (Vec outVec))) \<rparr>)"
    unfolding multAdd_def mult_def vd by (simp split: bind_splits)
  show ?thesis using main copy zeroed by simp
qed

lemma finalize_single:
  "finalize [op1] = Some [(op, err)] \<Longrightarrow> \<exists>inb. finalize_assemble op1 inb = Some (op, err)"
  by (auto simp: finalize_def bind_eq_Some_conv split: option.splits)

theorem multAdd_adds_to_addVec_witness:
  "case scenario_S1 of
     Some [(op, err)] \<Rightarrow>
       map_option (\<lambda>w. heap w (Vec 3))
         (multAdd op (\<lambda>_. 0) 2 4 3
            \<lparr> heap = (\<lambda>_. [])(Vec 2 := [4, 6, 10], Vec 3 := [7, 8], Vec 4 := [100, 200]),
              stderr = [] \<rparr>)
         = Some [105, 210]
     \<and> map_option (\<lambda>w. heap w (Vec 3))
         (multAdd op (\<lambda>_. 0) 2 3 3
            \<lparr> heap = (\<lambda>_. [])(Vec 2 := [4, 6, 10], Vec 3 := [7, 8], Vec 4 := [100, 200]),
              stderr = [] \<rparr>)
         = Some [12, 18]
   | _ \<Rightarrow> False"
proof -
  let ?W = "\<lparr> heap = (\<lambda>_. [])(Vec 2 := [4, 6, 10], Vec 3 := [7, 8], Vec 4 := [100, 200::real]),
              stderr = [] \<rparr>"
  have m: "case scenario_S1 of
     Some [(op, err)] \<Rightarrow>
       map_option (\<lambda>w. heap w (Vec 3)) (mult op (\<lambda>_. 0) 2 3 ?W) = Some [5, 10]
   | _ \<Rightarrow> False"
    by code_simp
  then obtain op err where c: "scenario_S1 = Some [(op, err)]"
    and mu: "map_option (\<lambda>w. heap w (Vec 3)) (mult op (\<lambda>_. 0) 2 3 ?W) = Some [5, 10]"
    by (auto split: option.splits list.splits)
  have "\<exists>op1. unfinalized_S1 = Some op1 \<and> finalize [op1] = Some [(op, err)]"
    using c unfolding scenario_S1_def by (simp add: bind_eq_Some_conv)
  then obtain op1 where u: "unfinalized_S1 = Some op1" and f: "finalize [op1] = Some [(op, err)]"
    by blast
  from u obtain op0 where a: "BVecInterp_new (one_rank_map 1 3) (one_rank_map 1 2) = Inr op0"
    and b: "addInterp_calls [(0, [1, 1], [0, 1], 2), (1, [2], [2], 1)] op0 = Some op1"
    by (auto simp: unfinalized_S1_def split: sum.splits)
  from finalize_single[OF f] obtain inb where fa: "finalize_assemble op1 inb = Some (op, err)" ..
  have ne: "(2::nat) \<noteq> 3" by simp
  have l1: "length (heap ?W (Vec 4)) = length (heap ?W (Vec 3))" by simp
  have l2: "length (heap ?W (Vec 3)) = length (heap ?W (Vec 3))" by simp
  have laws: "(\<forall>a b c :: real. (a + b) + c = a + (b + c)) \<and> (\<forall>a :: real. a + 0 = a)" by simp
  note t1 = multAdd_adds_to_addVec[OF a b fa ne l1, where halo = "\<lambda>_. 0", THEN conjunct2,
      THEN conjunct2, THEN mp, OF laws]
  note t2 = multAdd_adds_to_addVec[OF a b fa ne l2, where halo = "\<lambda>_. 0", THEN conjunct2,
      THEN conjunct2, THEN mp, OF laws]
  from mu obtain w1 where w1: "mult op (\<lambda>_. 0) 2 3 ?W = Some w1" and h1: "heap w1 (Vec 3) = [5, 10]"
    by auto
  from t1 w1 h1 have r1: "map_option (\<lambda>w. heap w (Vec 3)) (multAdd op (\<lambda>_. 0) 2 4 3 ?W) = Some [105, 210]"
    by (auto simp: option_rel_Some2)
  from t2 w1 h1 have r2: "map_option (\<lambda>w. heap w (Vec 3)) (multAdd op (\<lambda>_. 0) 2 3 3 ?W) = Some [12, 18]"
    by (auto simp: option_rel_Some2)
  show ?thesis unfolding c using r1 r2 by simp
qed

section \<open>The normalisation of the rows\<close>




lemma wf_csr_bounds:
  assumes "wf_csr n rp xs" and "t \<le> nat n"
  shows "0 \<le> rp ! t" and "rp ! t \<le> int (length xs)" and "t < length rp"
    and "t < nat n \<Longrightarrow> rp ! t \<le> rp ! Suc t"
proof -
  have len: "length rp = Suc (nat n)" and s: "sorted rp" and z: "rp ! 0 = 0"
    and l: "last rp = int (length xs)"
    using assms(1) by (auto simp: wf_csr_def)
  show t: "t < length rp" using len assms(2) by simp
  have "rp ! 0 \<le> rp ! t" using s t by (intro sorted_nth_mono) auto
  then show "0 \<le> rp ! t" using z by simp
  have "rp \<noteq> []" using len by auto
  then have "last rp = rp ! nat n" using len by (simp add: last_conv_nth)
  moreover have "rp ! t \<le> rp ! nat n" using s assms(2) len by (intro sorted_nth_mono) auto
  ultimately show "rp ! t \<le> int (length xs)" using l by simp
  show "t < nat n \<Longrightarrow> rp ! t \<le> rp ! Suc t" using s len by (intro sorted_nth_mono) auto
qed

lemma length_norm_row [simp]: "length (norm_row s row) = length row"
  by (simp add: norm_row_def)










lemma length_row_pointers [simp]: "length (row_pointers s rows) = Suc (length rows)"
  by (induction rows arbitrary: s) auto

lemma row_pointers_nth:
  "i \<le> length rows \<Longrightarrow> row_pointers s rows ! i = s + int (length (concat (take i rows)))"
proof (induction rows arbitrary: s i)
  case Nil
  then show ?case by simp
next
  case (Cons r rows)
  then show ?case by (cases i) auto
qed

lemma sorted_row_pointers: "sorted (row_pointers s rows)"
proof (induction rows arbitrary: s)
  case Nil
  then show ?case by simp
next
  case (Cons r rows)
  have "\<forall>x \<in> set (row_pointers (s + int (length r)) rows). s \<le> x"
  proof
    fix x assume "x \<in> set (row_pointers (s + int (length r)) rows)"
    then obtain i where "i < Suc (length rows)" "x = row_pointers (s + int (length r)) rows ! i"
      by (auto simp: in_set_conv_nth)
    then show "s \<le> x" by (simp add: row_pointers_nth)
  qed
  then show ?case using Cons.IH by simp
qed

lemma row_pointers_nonempty [simp]: "row_pointers s rows \<noteq> []"
  by (cases rows) auto

lemma last_row_pointers: "last (row_pointers s rows) = s + int (length (concat rows))"
  using row_pointers_nth[of "length rows" rows s]
  by (simp add: last_conv_nth)

lemma wf_csr_row_pointers: "wf_csr (int (length rows)) (row_pointers 0 rows) (concat rows)"
  using row_pointers_nth[of 0 rows 0]
  by (simp add: wf_csr_def sorted_row_pointers last_conv_nth row_pointers_nth del: length_concat)

lemma csr_row_row_pointers:
  assumes "i < length rows"
  shows "csr_row (row_pointers 0 rows) (concat rows) i = rows ! i"
proof -
  have t: "take (Suc i) rows = take i rows @ [rows ! i]"
    using assms by (simp add: take_Suc_conv_app_nth)
  have c: "concat rows = concat (take i rows) @ rows ! i @ concat (drop (Suc i) rows)"
    using assms by (metis Cons_nth_drop_Suc append_take_drop_id concat.simps(2) concat_append)
  have p: "row_pointers 0 rows ! i = int (length (concat (take i rows)))"
    "row_pointers 0 rows ! Suc i = int (length (concat (take i rows))) + int (length (rows ! i))"
    using assms by (simp_all add: row_pointers_nth t del: length_concat)
  show ?thesis
    unfolding csr_row_def p by (subst c) (simp del: length_concat)
qed

lemma SortAndUniquifyCSR_wf:
  assumes "SortAndUniquifyCSR n rp0 cs0 = Some (rp, cs)"
  shows "wf_csr n rp cs"
    and "i < nat n \<Longrightarrow> csr_row rp cs i = uniqueSort (csr_row rp0 cs0 i)"
proof -
  have n: "0 \<le> n" and rp: "rp = row_pointers 0 (uniq_rows n rp0 cs0)"
    and cs: "cs = concat (uniq_rows n rp0 cs0)"
    using assms by (auto simp: SortAndUniquifyCSR_def split: if_splits)
  have l: "int (length (uniq_rows n rp0 cs0)) = n" using n by (simp add: uniq_rows_def)
  show "wf_csr n rp cs" unfolding rp cs using wf_csr_row_pointers[of "uniq_rows n rp0 cs0"] l by simp
  show "csr_row rp cs i = uniqueSort (csr_row rp0 cs0 i)" if "i < nat n"
    unfolding rp cs using that csr_row_row_pointers[of i "uniq_rows n rp0 cs0"]
    by (simp add: uniq_rows_def)
qed







lemma finalize_pattern_wf:
  assumes "finalize_pattern op inb = Some (rp, cs, erp, ecs, err)"
  shows "wf_csr (N op) rp cs" and "wf_csr (N op) erp ecs"
proof -
  from assms obtain rp0 cs0 erp0 ecs0 where
    a: "SortAndUniquifyCSR (N op) rp0 cs0 = Some (rp, cs)"
    and b: "SortAndUniquifyCSR (N op) erp0 ecs0 = Some (erp, ecs)"
    unfolding finalize_pattern_def
    by (auto simp: bind_eq_Some_conv split: prod.splits)
  show "wf_csr (N op) rp cs" by (rule SortAndUniquifyCSR_wf(1)[OF a])
  show "wf_csr (N op) erp ecs" by (rule SortAndUniquifyCSR_wf(1)[OF b])
qed






section \<open>The table of external variables\<close>

lemma map_in_place_from:
  assumes g: "\<And>c. c \<in> set xs \<Longrightarrow> g c = Some (f c)"
  shows "t \<le> length xs \<Longrightarrow>
    for_loop [int t..int (length xs) - 1] (\<lambda>j ys. do { c \<leftarrow> rd ys j; v \<leftarrow> g c; wr ys j v })
      (map f (take t xs) @ drop t xs) = Some (map f xs)"
proof (induction "length xs - t" arbitrary: t)
  case 0
  then show ?case by simp
next
  case (Suc m)
  then have t: "t < length xs" by linarith
  then have le: "int t \<le> int (length xs) - 1" by linarith
  have m: "m = length xs - Suc t" using Suc.hyps(2) by linarith
  let ?ys = "map f (take t xs) @ drop t xs"
  have r: "rd ?ys (int t) = Some (xs ! t)" using t by (simp add: rd_def nth_append)
  have gx: "g (xs ! t) = Some (f (xs ! t))" using g t by simp
  have "?ys[t := f (xs ! t)] = map f (take (Suc t) xs) @ drop (Suc t) xs"
    using t by (simp add: take_Suc_conv_app_nth list_update_append Cons_nth_drop_Suc[symmetric])
  then have w: "wr ?ys (int t) (f (xs ! t)) = Some (map f (take (Suc t) xs) @ drop (Suc t) xs)"
    using t by (simp add: wr_def)
  have n1: "int t + 1 = int (Suc t)" by simp
  show ?case
    unfolding upto_rec1[OF le] n1 using r gx w Suc.hyps(1)[OF m] t by simp
qed

lemma map_in_place:
  assumes "\<And>c. c \<in> set xs \<Longrightarrow> g c = Some (f c)" and "n = int (length xs)"
  shows "for_loop [0..n - 1] (\<lambda>j ys. do { c \<leftarrow> rd ys j; v \<leftarrow> g c; wr ys j v }) xs = Some (map f xs)"
  using map_in_place_from[of xs g f 0] assms by simp

lemma shift_cols_eq:
  assumes "rd (inOwnerRange op) (mpiRank op) = Some lo" and "n = int (length cs)"
  shows "shift_cols op n cs = Some (map (\<lambda>c. c - lo) cs)"
  using map_in_place[of cs "\<lambda>c. do { lo \<leftarrow> rd (inOwnerRange op) (mpiRank op); Some (c - lo) }"
      "\<lambda>c. c - lo" n] assms
  by (simp add: shift_cols_def)

lemma shift_cols_Nil: "shift_cols op 0 [] = Some []"
  by (simp add: shift_cols_def)

lemma first_index_less: "key \<in> set xs \<Longrightarrow> first_index key xs < length xs \<and> xs ! first_index key xs = key"
  by (induction xs) auto

lemma bsearch_from_eq:
  "key \<in> set xs \<Longrightarrow> bsearch_from key xs p = Some (p + int (first_index key xs))"
  by (induction xs arbitrary: p) auto

lemma bsearch_from_None: "key \<notin> set xs \<Longrightarrow> bsearch_from key xs p = None"
  by (induction xs arbitrary: p) auto

lemma bsearch_table:
  "key \<in> set tab \<Longrightarrow> bsearch key tab 0 (int (length tab)) = Some (int (first_index key tab))"
  by (simp add: bsearch_def bsearch_from_eq)

lemma renumber_ext_eq:
  assumes "set ecs \<subseteq> set tab" and "n = int (length ecs)"
  shows "renumber_ext tab (int (length tab)) n ecs = Some (map (\<lambda>c. int (first_index c tab)) ecs)"
proof -
  have "for_loop [0..n - 1]
      (\<lambda>j ys. do { c \<leftarrow> rd ys j; v \<leftarrow> bsearch c tab 0 (int (length tab)); wr ys j v }) ecs
      = Some (map (\<lambda>c. int (first_index c tab)) ecs)"
  proof (rule map_in_place[OF _ assms(2)])
    fix c assume "c \<in> set ecs"
    then show "bsearch c tab 0 (int (length tab)) = Some (int (first_index c tab))"
      using assms(1) by (intro bsearch_table) auto
  qed
  then show ?thesis by (simp add: renumber_ext_def)
qed

lemma uniqueSort_props:
  "sorted_wrt (<) (uniqueSort xs)" "set (uniqueSort xs) = set xs"
  "length (uniqueSort xs) = card (set xs)" "distinct (uniqueSort xs)"
proof -
  show d: "distinct (uniqueSort xs)" by (simp add: uniqueSort_def)
  show "sorted_wrt (<) (uniqueSort xs)"
    using d by (simp add: strict_sorted_iff uniqueSort_def)
  show s: "set (uniqueSort xs) = set xs" by (simp add: uniqueSort_def)
  show "length (uniqueSort xs) = card (set xs)"
    using distinct_card[OF d] s by simp
qed

lemma wf_csr_last:
  assumes "wf_csr n rp xs"
  shows "rd rp n = Some (int (length xs))"
proof -
  from assms have "rp \<noteq> []" and l: "length rp = Suc (nat n)" and n: "0 \<le> n"
    and e: "last rp = int (length xs)"
    by (auto simp: wf_csr_def)
  then have "last rp = rp ! nat n" by (simp add: last_conv_nth)
  then show ?thesis using l n e by (simp add: rd_def)
qed

lemma shift_cols_reads:
  assumes "shift_cols op n cs = Some cs'" and "n = int (length cs)" and "cs \<noteq> []"
  shows "\<exists>lo. rd (inOwnerRange op) (mpiRank op) = Some lo"
proof -
  have le: "(0::int) \<le> n - 1" using assms(2,3) by (cases cs) auto
  from assms(1) show ?thesis
    unfolding shift_cols_def upto_rec1[OF le]
    by (auto simp: bind_eq_Some_conv)
qed

lemma finalize_renumber_result:
  assumes wc: "wf_csr (N op) rp cs" and we: "wf_csr (N op) erp ecs"
    and r: "finalize_renumber op rp cs erp ecs = Some (ext_vars, nvars, cs', ecs')"
  shows "ext_vars = uniqueSort ecs" and "nvars = int (length ext_vars)"
    and "ecs' = map (\<lambda>c. int (first_index c ext_vars)) ecs"
    and "cs \<noteq> [] \<Longrightarrow> \<exists>lo. rd (inOwnerRange op) (mpiRank op) = Some lo \<and> cs' = map (\<lambda>c. c - lo) cs"
    and "cs = [] \<Longrightarrow> cs' = []"
proof -
  note lc = wf_csr_last[OF wc] and le = wf_csr_last[OF we]
  from r have sc: "shift_cols op (int (length cs)) cs = Some cs'"
    and re: "renumber_ext (uniqueSort ecs) (int (length (uniqueSort ecs))) (int (length ecs)) ecs = Some ecs'"
    and ev: "ext_vars = uniqueSort ecs" and nv: "nvars = int (length ext_vars)"
    by (auto simp: finalize_renumber_def lc le Let_def bind_eq_Some_conv)
  show "ext_vars = uniqueSort ecs" by (rule ev)
  show "nvars = int (length ext_vars)" by (rule nv)
  have "set ecs \<subseteq> set (uniqueSort ecs)" by (simp add: uniqueSort_props(2))
  from renumber_ext_eq[OF this refl] re
  show "ecs' = map (\<lambda>c. int (first_index c ext_vars)) ecs" by (simp add: ev)
  show "\<exists>lo. rd (inOwnerRange op) (mpiRank op) = Some lo \<and> cs' = map (\<lambda>c. c - lo) cs" if "cs \<noteq> []"
  proof -
    from shift_cols_reads[OF sc refl that] obtain lo where lo: "rd (inOwnerRange op) (mpiRank op) = Some lo" ..
    from shift_cols_eq[OF lo refl, of cs] sc have "cs' = map (\<lambda>c. c - lo) cs" by simp
    then show ?thesis using lo by simp
  qed
  show "cs' = []" if "cs = []" using sc that by (simp add: shift_cols_def)
qed

text \<open>
  Claim C9. After \<open>finalize\<close> the table of external variables, which the \<open>BVecDistribute\<close>
  object owns, is strictly increasing and holds exactly the column values of the external
  part, so \<open>num_ext_vars\<close> is the number of distinct ones; every entry of \<open>ext_cols\<close> is the
  place \<open>bsearch\<close> finds for its former value in the table, and every entry of \<open>cols\<close> is
  its former value less \<open>inOwnerRange[mpiRank]\<close>. The former values are those the sorted
  column structure holds before the renumbering.
\<close>

theorem external_table_invariant:
  assumes "finalize_pattern op1 inb = Some (rp, cs, erp, ecs, err)"
    and "finalize_assemble op1 inb = Some (op, err')"
  shows "\<exists>vd. vecDist op = Some vd
       \<and> sorted_wrt (<) (dist_ext_vars vd)
       \<and> set (dist_ext_vars vd) = set ecs
       \<and> num_ext_vars op = int (length (dist_ext_vars vd))
       \<and> num_ext_vars op = int (card (set ecs))
       \<and> length (ext_cols op) = length ecs
       \<and> (\<forall>j < length ecs. 0 \<le> ext_cols op ! j \<and> ext_cols op ! j < num_ext_vars op
              \<and> bsearch (ecs ! j) (dist_ext_vars vd) 0 (num_ext_vars op) = Some (ext_cols op ! j)
              \<and> dist_ext_vars vd ! nat (ext_cols op ! j) = ecs ! j)
       \<and> length (cols op) = length cs
       \<and> (\<forall>j < length cs. \<exists>lo. rd (inOwnerRange op1) (mpiRank op1) = Some lo
              \<and> cols op ! j = cs ! j - lo)"
proof -
  note wf = finalize_pattern_wf[OF assms(1)]
  from assms obtain ext_vars nvars cs' ecs' where
    r: "finalize_renumber op1 rp cs erp ecs = Some (ext_vars, nvars, cs', ecs')"
    and vd: "vecDist op = Some \<lparr> dist_map = inMap op1, dist_ext_vars = ext_vars \<rparr>"
    and f: "cols op = cs'" "ext_cols op = ecs'" "num_ext_vars op = nvars"
    by (auto simp: finalize_assemble_def bind_eq_Some_conv split: prod.splits)
  note res = finalize_renumber_result[OF wf r]
  note u = uniqueSort_props[of ecs]
  have ext: "\<forall>j < length ecs. 0 \<le> ecs' ! j \<and> ecs' ! j < nvars
       \<and> bsearch (ecs ! j) ext_vars 0 nvars = Some (ecs' ! j)
       \<and> ext_vars ! nat (ecs' ! j) = ecs ! j"
  proof (intro allI impI)
    fix j assume j: "j < length ecs"
    then have "ecs ! j \<in> set ext_vars" unfolding res(1) u(2) by simp
    from first_index_less[OF this] bsearch_table[OF this] j
    show "0 \<le> ecs' ! j \<and> ecs' ! j < nvars
       \<and> bsearch (ecs ! j) ext_vars 0 nvars = Some (ecs' ! j)
       \<and> ext_vars ! nat (ecs' ! j) = ecs ! j"
      unfolding res(3) res(2) by simp
  qed
  have loc: "length cs' = length cs \<and> (\<forall>j < length cs. \<exists>lo. rd (inOwnerRange op1) (mpiRank op1) = Some lo
              \<and> cs' ! j = cs ! j - lo)"
  proof (cases "cs = []")
    case True
    then show ?thesis using res(5) by simp
  next
    case False
    from res(4)[OF this] show ?thesis by auto
  qed
  show ?thesis
    using vd f ext loc u res(1,2,3) by simp
qed

theorem external_table_invariant_witness:
  "case Option.bind unfinalized_two_ranks (\<lambda>ops. finalize_steps ops 0) of
     Some (op1, inb, (rp, cs, erp, ecs, err), w, (op, err')) \<Rightarrow>
       cs = [1] \<and> ecs = [2, 3]
     \<and> (\<exists>vd. vecDist op = Some vd
           \<and> sorted_wrt (<) (dist_ext_vars vd)
           \<and> set (dist_ext_vars vd) = {2, 3}
           \<and> num_ext_vars op = 2
           \<and> length (ext_cols op) = 2
           \<and> dist_ext_vars vd ! nat (ext_cols op ! 0) = 2
           \<and> dist_ext_vars vd ! nat (ext_cols op ! 1) = 3
           \<and> cols op = [1])
   | None \<Rightarrow> False"
proof -
  have "map_option (\<lambda>(op1, inb, (rp, cs, erp, ecs, err), w, (op, err')).
          (cs, ecs, rd (inOwnerRange op1) (mpiRank op1)))
      (Option.bind unfinalized_two_ranks (\<lambda>ops. finalize_steps ops 0)) = Some ([1], [2, 3], Some 0)"
    by code_simp
  then obtain op1 inb rp erp err w op err' where
    st: "Option.bind unfinalized_two_ranks (\<lambda>ops. finalize_steps ops 0)
       = Some (op1, inb, (rp, [1], erp, [2, 3], err), w, (op, err'))"
    and lo: "rd (inOwnerRange op1) (mpiRank op1) = Some 0"
    by auto
  then obtain ops where fs: "finalize_steps ops 0 = Some (op1, inb, (rp, [1], erp, [2, 3], err), w, (op, err'))"
    by (auto simp: bind_eq_Some_conv)
  from fs have p: "finalize_pattern op1 inb = Some (rp, [1], erp, [2, 3], err)"
    and f: "finalize_assemble op1 inb = Some (op, err')"
    by (auto simp: finalize_steps_def bind_eq_Some_conv split: if_splits)
  from external_table_invariant[OF p f] obtain vd where
    vd: "vecDist op = Some vd" "sorted_wrt (<) (dist_ext_vars vd)"
      "set (dist_ext_vars vd) = set [2, 3]" "num_ext_vars op = int (card (set [2, 3::int]))"
      "length (ext_cols op) = length [2, 3::int]"
    and e: "\<forall>j < length [2, 3::int]. dist_ext_vars vd ! nat (ext_cols op ! j) = [2, 3] ! j"
    and c: "length (cols op) = length [1::int]"
       "\<forall>j < length [1::int]. \<exists>lo. rd (inOwnerRange op1) (mpiRank op1) = Some lo
              \<and> cols op ! j = [1] ! j - lo"
    by blast
  from e have e0: "dist_ext_vars vd ! nat (ext_cols op ! 0) = 2"
    and e1: "dist_ext_vars vd ! nat (ext_cols op ! 1) = 3"
    by (auto simp: less_Suc_eq)
  from c lo have "cols op = [1]" by (cases "cols op") auto
  then show ?thesis
    unfolding st using vd e0 e1 by auto
qed

section \<open>Calls of \<open>addInterp\<close> with invalid arguments\<close>

lemma for_loop_upto_invariant:
  assumes "for_loop [a..b - 1] f s = Some s'" and "a \<le> b" and "P a s"
    and step: "\<And>i s s'. a \<le> i \<Longrightarrow> i < b \<Longrightarrow> P i s \<Longrightarrow> f i s = Some s' \<Longrightarrow> P (i + 1) s'"
  shows "P b s'"
  using assms
proof (induction "nat (b - a)" arbitrary: a s)
  case 0
  then have "a = b" by simp
  then show ?case using 0 by simp
next
  case (Suc m)
  then have ab: "a < b" by linarith
  then have u: "[a..b - 1] = a # [a + 1..b - 1]" by (simp add: upto_rec1)
  from Suc.prems(1) obtain s1 where s1: "f a s = Some s1" and l: "for_loop [a + 1..b - 1] f s1 = Some s'"
    unfolding u by (auto simp: bind_eq_Some_conv)
  have p1: "P (a + 1) s1" using Suc.prems(4)[OF _ ab Suc.prems(3) s1] by simp
  show ?case
  proof (rule Suc.hyps(1)[OF _ l _ p1])
    show "m = nat (b - (a + 1))" using Suc.hyps(2) by linarith
    show "a + 1 \<le> b" using ab by simp
  next
    fix i s s' assume "a + 1 \<le> i" "i < b" "P i s" "f i s = Some s'"
    then show "P (i + 1) s'" using Suc.prems(4)[of i s s'] by simp
  qed
qed

lemma put_Some:
  assumes "put xs cap i v = Some ys"
  shows "0 \<le> i" and "i < cap" and "i \<le> int (length xs)"
    and "ys = (if i < int (length xs) then xs[nat i := v] else xs @ [v])"
  using assms by (auto simp: put_def split: if_splits)

lemma put_length:
  assumes "put xs cap i v = Some ys"
  shows "length xs \<le> length ys" and "i < int (length ys)" and "int (length ys) \<le> max (int (length xs)) cap"
    and "length ys = (if i < int (length xs) then length xs else Suc (length xs))"
  using put_Some[OF assms] by (auto split: if_splits)

text \<open>The copy loop of \<open>addInterp\<close>: both arrays grow together, up to the end of the row.\<close>

lemma stage_loop:
  assumes l: "for_loop [0..cnt - 1]
           (\<lambda>i (vs, ws). do {
              v \<leftarrow> rd vars i;
              vs \<leftarrow> put vs cap (p + i) v;
              x \<leftarrow> rd w i;
              ws \<leftarrow> put ws cap (p + i) x;
              Some (vs, ws) })
           (vs, ws) = Some (vs', ws')"
    and e: "length ws = length vs" and c: "int (length vs) \<le> cap" and p: "p \<le> int (length vs)"
  shows "length ws' = length vs'" and "int (length vs') \<le> cap" and "length vs \<le> length vs'"
    and "0 \<le> cnt \<Longrightarrow> p + cnt \<le> int (length vs')"
    and "cnt \<le> 0 \<Longrightarrow> vs' = vs \<and> ws' = ws"
proof -
  show "vs' = vs \<and> ws' = ws" if "cnt \<le> 0"
  proof -
    have "[0..cnt - 1] = []" using that by simp
    then show ?thesis using l by simp
  qed
  let ?P = "\<lambda>(i::int) s. length (snd s) = length (fst s) \<and> int (length (fst s)) \<le> cap
      \<and> length vs \<le> length (fst s) \<and> p + i \<le> int (length (fst s))"
  have "length ws' = length vs' \<and> int (length vs') \<le> cap \<and> length vs \<le> length vs'
      \<and> (0 \<le> cnt \<longrightarrow> p + cnt \<le> int (length vs'))"
  proof (cases "0 \<le> cnt")
    case False
    then have "[0..cnt - 1] = []" by simp
    then show ?thesis using l e c False by simp
  next
    case True
    have "?P cnt (vs', ws')"
    proof (rule for_loop_upto_invariant[where P = ?P, OF l True])
      show "?P 0 (vs, ws)" using e c p by simp
    next
      fix i s s' assume i: "0 \<le> i" "i < cnt" and P: "?P i s"
        and b: "(case s of (vs, ws) \<Rightarrow> do {
              v \<leftarrow> rd vars i;
              vs \<leftarrow> put vs cap (p + i) v;
              x \<leftarrow> rd w i;
              ws \<leftarrow> put ws cap (p + i) x;
              Some (vs, ws) }) = Some s'"
      obtain a b0 where s: "s = (a, b0)" by (cases s)
      from b s obtain v x a' b' where pa: "put a cap (p + i) v = Some a'"
        and pb: "put b0 cap (p + i) x = Some b'" and s': "s' = (a', b')"
        by (auto simp: bind_eq_Some_conv)
      note la = put_length[OF pa] put_Some(2)[OF pa] and lb = put_length(4)[OF pb]
      from P s have q: "length b0 = length a" "int (length a) \<le> cap" "length vs \<le> length a"
        by simp_all
      show "?P (i + 1) s'"
        unfolding s' using la lb q by (auto split: if_splits)
    qed
    then show ?thesis using True by simp
  qed
  then show "length ws' = length vs'" and "int (length vs') \<le> cap" and "length vs \<le> length vs'"
    and "0 \<le> cnt \<Longrightarrow> p + cnt \<le> int (length vs')" by simp_all
qed

lemma c_int_Some: "c_int x = Some y \<Longrightarrow> y = x \<and> INT_MIN \<le> x \<and> x \<le> INT_MAX"
  by (auto simp: c_int_def split: if_splits)

lemma staging_ok_last:
  assumes "staging_ok (sz, max_size, max_weights, nums, rp, vs, ws)"
  shows "rd rp sz = Some (last rp)" and "last rp \<le> int (length vs)"
    and "take (nat sz) nums = nums" and "take (nat (sz + 1)) rp = rp"
    and "put nums cap sz num = (if sz < cap then Some (nums @ [num]) else None)"
    and "put rp cap' (sz + 1) e = (if sz + 1 < cap' then Some (rp @ [e]) else None)"
proof -
  from assms have sz: "0 \<le> sz" and ln: "int (length nums) = sz" and lr: "int (length rp) = sz + 1"
    and rp: "last rp \<le> int (length vs)"
    by (auto simp: staging_ok_def)
  have ne: "rp \<noteq> []" using lr sz by auto
  have "length rp - 1 = nat sz" using lr sz by linarith
  then have l: "last rp = rp ! nat sz" using last_conv_nth[OF ne] by simp
  show "rd rp sz = Some (last rp)" using sz lr l by (simp add: rd_def)
  show "last rp \<le> int (length vs)" by (rule rp)
  show "take (nat sz) nums = nums" using ln by simp
  have "nat (sz + 1) = length rp" using lr sz by linarith
  then show "take (nat (sz + 1)) rp = rp" by simp
  show "put nums cap sz num = (if sz < cap then Some (nums @ [num]) else None)"
    using sz ln by (simp add: put_def)
  show "put rp cap' (sz + 1) e = (if sz + 1 < cap' then Some (rp @ [e]) else None)"
    using sz lr by (simp add: put_def)
qed

lemma stage_row_ok:
  assumes ok: "staging_ok (sz, max_size, max_weights, nums, rp, vs, ws)"
    and r: "stage_row num w vars cnt (sz, max_size, max_weights, nums, rp, vs, ws)
        = Some (sz', max_size', max_weights', nums', rp', vs', ws')"
  shows "sz' = sz + 1" and "nums' = nums @ [num]" and "rp' = rp @ [last rp + cnt]"
    and "staging_ok (sz', max_size', max_weights', nums', rp', vs', ws')"
    and "cnt \<le> 0 \<Longrightarrow> vs' = vs \<and> ws' = ws"
proof -
  from ok have sz: "0 \<le> sz" and ln: "int (length nums) = sz" and lr: "int (length rp) = sz + 1"
    and ms: "sz \<le> max_size" and lw: "length ws = length vs"
    and lv: "int (length vs) \<le> max_weights" and mw: "max_weights \<le> INT_MAX"
    by (auto simp: staging_ok_def)
  note l = staging_ok_last[OF ok]
  let ?p = "last rp"
  from r obtain m1 n1 r1 where
    a: "(if sz \<ge> max_size
           then do {
             m \<leftarrow> c_int (max_size + max_size);
             m1 \<leftarrow> c_int (m + 1);
             if 0 \<le> m \<and> 0 \<le> sz then Some (m, take (nat sz) nums, take (nat (sz + 1)) rp)
             else None }
           else Some (max_size, nums, rp)) = Some (m1, n1, r1)"
    and rest: "do {
        p \<leftarrow> rd r1 sz;
        e \<leftarrow> c_int (p + cnt);
        (max_weights, vs, ws) \<leftarrow>
          (if e > max_weights
           then do {
             t \<leftarrow> c_int (cnt + max_weights);
             m \<leftarrow> c_int (max_weights + t);
             if 0 \<le> m \<and> 0 \<le> p then Some (m, take (nat p) vs, take (nat p) ws)
             else None }
           else Some (max_weights, vs, ws));
        nums \<leftarrow> put n1 m1 sz num;
        p \<leftarrow> rd r1 sz;
        e \<leftarrow> c_int (p + cnt);
        rp \<leftarrow> put r1 (m1 + 1) (sz + 1) e;
        (vs, ws) \<leftarrow> for_loop [0..cnt - 1]
           (\<lambda>i (vs, ws). do {
              v \<leftarrow> rd vars i;
              vs \<leftarrow> put vs max_weights (p + i) v;
              x \<leftarrow> rd w i;
              ws \<leftarrow> put ws max_weights (p + i) x;
              Some (vs, ws) })
           (vs, ws);
        Some (sz + 1, m1, max_weights, nums, rp, vs, ws) }
       = Some (sz', max_size', max_weights', nums', rp', vs', ws')"
    unfolding stage_row_def prod.case by (auto simp: bind_eq_Some_conv split: prod.splits)
  from a have n1: "n1 = nums" and r1: "r1 = rp"
    using l(3,4) by (auto simp: bind_eq_Some_conv split: if_splits)
  from rest[unfolded n1 r1 l(1)] obtain e mw1 vs1 ws1 where
    e: "c_int (?p + cnt) = Some e"
    and b: "(if e > max_weights
           then do {
             t \<leftarrow> c_int (cnt + max_weights);
             m \<leftarrow> c_int (max_weights + t);
             if 0 \<le> m \<and> 0 \<le> ?p then Some (m, take (nat ?p) vs, take (nat ?p) ws)
             else None }
           else Some (max_weights, vs, ws)) = Some (mw1, vs1, ws1)"
    and pn: "put nums m1 sz num = Some nums'"
    and pr: "put rp (m1 + 1) (sz + 1) e = Some rp'"
    and lp: "for_loop [0..cnt - 1]
           (\<lambda>i (vs, ws). do {
              v \<leftarrow> rd vars i;
              vs \<leftarrow> put vs mw1 (?p + i) v;
              x \<leftarrow> rd w i;
              ws \<leftarrow> put ws mw1 (?p + i) x;
              Some (vs, ws) })
           (vs1, ws1) = Some (vs', ws')"
    and out: "sz' = sz + 1" "max_size' = m1" "max_weights' = mw1"
    by (auto simp: bind_eq_Some_conv split: prod.splits)
  have ev: "e = ?p + cnt" using c_int_Some[OF e] by simp
  show "sz' = sz + 1" by (rule out(1))
  from pn show nums': "nums' = nums @ [num]" unfolding l(5) by (simp split: if_splits)
  from pn have szm: "sz < m1" unfolding l(5) by (simp split: if_splits)
  from pr show rp': "rp' = rp @ [?p + cnt]" unfolding l(6) ev by (simp split: if_splits)
  have s1: "length ws1 = length vs1 \<and> int (length vs1) \<le> mw1 \<and> ?p \<le> int (length vs1)
      \<and> mw1 \<le> INT_MAX \<and> (cnt \<le> 0 \<longrightarrow> vs1 = vs \<and> ws1 = ws)"
  proof (cases "e > max_weights")
    case False
    then show ?thesis using b lw lv mw l(2) by simp
  next
    case True
    from b True obtain t where t: "c_int (cnt + max_weights) = Some t"
      and m: "c_int (max_weights + t) = Some mw1" and p0: "0 \<le> ?p"
      and v: "vs1 = take (nat ?p) vs" "ws1 = take (nat ?p) ws"
      by (auto simp: bind_eq_Some_conv split: if_splits)
    have c0: "0 < cnt" using True ev l(2) lv by linarith
    have "mw1 = max_weights + (cnt + max_weights)" using c_int_Some[OF t] c_int_Some[OF m] by simp
    moreover have "mw1 \<le> INT_MAX" using c_int_Some[OF m] by simp
    moreover have "length vs1 = nat ?p" "length ws1 = nat ?p" using v l(2) lw by simp_all
    ultimately show ?thesis using c0 lv l(2) p0 by simp
  qed
  then have q: "length ws1 = length vs1" "int (length vs1) \<le> mw1" "?p \<le> int (length vs1)"
    "mw1 \<le> INT_MAX" by simp_all
  note sl = stage_loop[OF lp q(1,2,3)]
  show "vs' = vs \<and> ws' = ws" if "cnt \<le> 0" using sl(5)[OF that] s1 that by simp
  have lastp: "?p + cnt \<le> int (length vs')"
  proof (cases "0 \<le> cnt")
    case True
    then show ?thesis by (rule sl(4))
  next
    case False
    then show ?thesis using q(3) sl(3) by linarith
  qed
  show "staging_ok (sz', max_size', max_weights', nums', rp', vs', ws')"
    unfolding staging_ok_def prod.case out nums' rp'
    using sz ln lr szm sl(1,2) q(4) lastp by simp
qed

lemma stage_row_nonpositive:
  assumes ok: "staging_ok (sz, max_size, max_weights, nums, rp, vs, ws)" and c: "cnt \<le> 0"
    and room: "can_stage (sz, max_size, max_weights, nums, rp, vs, ws) cnt"
  shows "\<exists>m. stage_row num w vars cnt (sz, max_size, max_weights, nums, rp, vs, ws)
     = Some (sz + 1, m, max_weights, nums @ [num], rp @ [last rp + cnt], vs, ws)"
proof -
  from ok have sz: "0 \<le> sz" and ms: "sz \<le> max_size"
    and lv: "int (length vs) \<le> max_weights" and mw: "max_weights \<le> INT_MAX"
    by (auto simp: staging_ok_def)
  from room have rm: "sz < max_size \<or> (0 < max_size \<and> max_size + max_size + 1 \<le> INT_MAX)"
    and lo: "INT_MIN \<le> last rp + cnt"
    by (auto simp: can_stage_def)
  note l = staging_ok_last[OF ok]
  have e: "c_int (last rp + cnt) = Some (last rp + cnt)"
    using lo l(2) lv mw c by (simp add: c_int_def)
  have nw: "\<not> last rp + cnt > max_weights" using l(2) lv c by linarith
  have lp: "[0..cnt - 1] = []" using c by simp
  show ?thesis
  proof (cases "sz \<ge> max_size")
    case True
    then have m0: "0 < max_size" "max_size + max_size + 1 \<le> INT_MAX" using rm by simp_all
    have ci: "c_int (2 * max_size) = Some (2 * max_size)"
      "c_int (2 * max_size + 1) = Some (2 * max_size + 1)"
      using m0 by (simp_all add: c_int_def INT_MIN_def)
    have szm: "sz < 2 * max_size" "sz + 1 < 2 * max_size + 1" "sz < 2 * max_size + 1" "sz + 1 \<le> 2 * max_size" using ms m0 by simp_all
    show ?thesis
      unfolding stage_row_def prod.case
      using True sz m0 nw by (simp add: ci l e szm lp)
  next
    case False
    then have szm: "sz < max_size" "sz + 1 < max_size + 1" by simp_all
    show ?thesis
      unfolding stage_row_def prod.case
      using False nw by (simp add: l e szm lp)
  qed
qed

lemma addInterp_on:
  assumes "owned (outOwnerRange op) (mpiRank op) num = Some True"
  shows "addInterp num w vars cnt op =
     map_option (\<lambda>(sz, max_size, max_weights, nums, rp, vs, ws).
         op\<lparr> on_size := sz, max_on_size := max_size, max_on_weights := max_weights,
               on_nums := nums, on_rowp := rp, on_vars := vs, on_weights := ws \<rparr>)
       (stage_row num w vars cnt (on_staging op))"
  using assms by (cases "stage_row num w vars cnt (on_staging op)") (auto simp: addInterp_def on_staging_def)

lemma addInterp_off:
  assumes "owned (outOwnerRange op) (mpiRank op) num = Some False"
  shows "addInterp num w vars cnt op =
     map_option (\<lambda>(sz, max_size, max_weights, nums, rp, vs, ws).
         op\<lparr> off_size := sz, max_off_size := max_size, max_off_weights := max_weights,
               off_nums := nums, off_rowp := rp, off_vars := vs, off_weights := ws \<rparr>)
       (stage_row num w vars cnt (off_staging op))"
  using assms by (cases "stage_row num w vars cnt (off_staging op)") (auto simp: addInterp_def off_staging_def)

lemma BVecInterp_new_staging:
  assumes "BVecInterp_new im om = Inr op"
  shows "staging_ok (on_staging op)" and "staging_ok (off_staging op)"
proof -
  from assms have n: "0 \<le> getDim om" "27 * getDim om \<le> INT_MAX"
    by (auto simp: BVecInterp_new_def c_int_def split: if_splits)
  let ?m = "if getDim om div 10 < 100 then 100 else getDim om div 10"
  have "27 * ?m \<le> INT_MAX" using n by (auto simp: INT_MAX_def)
  moreover have "0 \<le> ?m" by simp
  ultimately show "staging_ok (on_staging op)" and "staging_ok (off_staging op)"
    using assms n
    by (auto simp: BVecInterp_new_def staging_ok_def on_staging_def off_staging_def split: if_splits)
qed

lemma addInterp_owner:
  assumes "addInterp num w vars cnt op = Some op'"
  shows "outOwnerRange op' = outOwnerRange op" and "mpiRank op' = mpiRank op"
  using assms by (auto simp: addInterp_def bind_eq_Some_conv split: if_splits prod.splits)

lemma addInterp_staging:
  assumes on: "staging_ok (on_staging op)" and off: "staging_ok (off_staging op)"
    and a: "addInterp num w vars cnt op = Some op'"
  shows "staging_ok (on_staging op')" and "staging_ok (off_staging op')"
proof -
  from a obtain own where o: "owned (outOwnerRange op) (mpiRank op) num = Some own"
    by (auto simp: addInterp_def bind_eq_Some_conv)
  have oT: "owned (outOwnerRange op) (mpiRank op) num = Some True" if own using o that by simp
  have oF: "owned (outOwnerRange op) (mpiRank op) num = Some False" if "\<not> own" using o that by simp
  have "staging_ok (on_staging op') \<and> staging_ok (off_staging op')"
  proof (cases own)
    case True
    from a obtain sz ms mw nums rp vs ws where
      s: "stage_row num w vars cnt (on_staging op) = Some (sz, ms, mw, nums, rp, vs, ws)"
      and e: "op' = op\<lparr> on_size := sz, max_on_size := ms, max_on_weights := mw,
               on_nums := nums, on_rowp := rp, on_vars := vs, on_weights := ws \<rparr>"
      unfolding addInterp_on[OF oT[OF True]] by auto
    from stage_row_ok(4)[OF on[unfolded on_staging_def] s[unfolded on_staging_def]] off
    show ?thesis by (simp add: e on_staging_def off_staging_def)
  next
    case False
    from a obtain sz ms mw nums rp vs ws where
      s: "stage_row num w vars cnt (off_staging op) = Some (sz, ms, mw, nums, rp, vs, ws)"
      and e: "op' = op\<lparr> off_size := sz, max_off_size := ms, max_off_weights := mw,
               off_nums := nums, off_rowp := rp, off_vars := vs, off_weights := ws \<rparr>"
      unfolding addInterp_off[OF oF[OF False]] by auto
    from stage_row_ok(4)[OF off[unfolded off_staging_def] s[unfolded off_staging_def]] on
    show ?thesis by (simp add: e on_staging_def off_staging_def)
  qed
  then show "staging_ok (on_staging op')" and "staging_ok (off_staging op')" by simp_all
qed

lemma addInterp_calls_staging:
  assumes "addInterp_calls calls op = Some op'"
    and "staging_ok (on_staging op)" and "staging_ok (off_staging op)"
  shows "staging_ok (on_staging op') \<and> staging_ok (off_staging op')"
  using assms
proof (induction calls arbitrary: op)
  case Nil
  then show ?case by simp
next
  case (Cons c calls)
  obtain num w vars cnt where c: "c = (num, w, vars, cnt)" by (cases c)
  from Cons.prems(1) obtain op1 where a: "addInterp num w vars cnt op = Some op1"
    and r: "addInterp_calls calls op1 = Some op'"
    unfolding c by (auto simp: bind_eq_Some_conv)
  show ?case
    by (rule Cons.IH[OF r addInterp_staging[OF Cons.prems(2,3) a]])
qed

text \<open>
  Claim C7, as the code has it. \<open>addInterp\<close> tests neither the size nor the row number
  and prints nothing. On an operator as the constructor and any earlier calls of
  \<open>addInterp\<close> leave it, every call that returns has staged one more row record: in the
  \<open>on_\<close> arrays when this process owns the row, in the \<open>off_\<close> arrays otherwise (so for
  every row number outside the range of the output map), with the row pointer moved by the
  size, also by a negative one, and the other staging arrays as they were. With a size of
  0 or less the call does return, whenever the row arrays have room or can be doubled
  within \<open>int\<close> and the new row pointer is an \<open>int\<close>; it copies no entry.
\<close>

theorem addInterp_stages_unchecked:
  assumes new: "BVecInterp_new im om = Inr op0"
    and calls: "addInterp_calls calls op0 = Some op"
    and own: "owned (outOwnerRange op) (mpiRank op) num = Some own"
  shows "(\<forall>op'. addInterp num w vars cnt op = Some op' \<longrightarrow>
            (if own
             then on_size op' = on_size op + 1 \<and> on_nums op' = on_nums op @ [num]
                \<and> on_rowp op' = on_rowp op @ [last (on_rowp op) + cnt]
                \<and> off_staging op' = off_staging op
             else off_size op' = off_size op + 1 \<and> off_nums op' = off_nums op @ [num]
                \<and> off_rowp op' = off_rowp op @ [last (off_rowp op) + cnt]
                \<and> on_staging op' = on_staging op))
       \<and> (cnt \<le> 0 \<and> can_stage (if own then on_staging op else off_staging op) cnt \<longrightarrow>
            (\<exists>op'. addInterp num w vars cnt op = Some op'
               \<and> on_vars op' = on_vars op \<and> on_weights op' = on_weights op
               \<and> off_vars op' = off_vars op \<and> off_weights op' = off_weights op))"
proof -
  have ok: "staging_ok (on_staging op)" "staging_ok (off_staging op)"
    using addInterp_calls_staging[OF calls BVecInterp_new_staging[OF new]] by simp_all
  have oT: "owned (outOwnerRange op) (mpiRank op) num = Some True" if own using own that by simp
  have oF: "owned (outOwnerRange op) (mpiRank op) num = Some False" if "\<not> own" using own that by simp
  show ?thesis
  proof (intro conjI allI impI)
    fix op' assume a: "addInterp num w vars cnt op = Some op'"
    show "if own
          then on_size op' = on_size op + 1 \<and> on_nums op' = on_nums op @ [num]
             \<and> on_rowp op' = on_rowp op @ [last (on_rowp op) + cnt]
             \<and> off_staging op' = off_staging op
          else off_size op' = off_size op + 1 \<and> off_nums op' = off_nums op @ [num]
             \<and> off_rowp op' = off_rowp op @ [last (off_rowp op) + cnt]
             \<and> on_staging op' = on_staging op"
    proof (cases own)
      case True
      from a obtain sz ms mw nums rp vs ws where
        s: "stage_row num w vars cnt (on_staging op) = Some (sz, ms, mw, nums, rp, vs, ws)"
        and o: "op' = op\<lparr> on_size := sz, max_on_size := ms, max_on_weights := mw,
                 on_nums := nums, on_rowp := rp, on_vars := vs, on_weights := ws \<rparr>"
        unfolding addInterp_on[OF oT[OF True]] by auto
      from stage_row_ok(1,2,3)[OF ok(1)[unfolded on_staging_def] s[unfolded on_staging_def]]
      show ?thesis using True by (simp add: o off_staging_def)
    next
      case False
      from a obtain sz ms mw nums rp vs ws where
        s: "stage_row num w vars cnt (off_staging op) = Some (sz, ms, mw, nums, rp, vs, ws)"
        and o: "op' = op\<lparr> off_size := sz, max_off_size := ms, max_off_weights := mw,
                 off_nums := nums, off_rowp := rp, off_vars := vs, off_weights := ws \<rparr>"
        unfolding addInterp_off[OF oF[OF False]] by auto
      from stage_row_ok(1,2,3)[OF ok(2)[unfolded off_staging_def] s[unfolded off_staging_def]]
      show ?thesis using False by (simp add: o on_staging_def)
    qed
  next
    assume c: "cnt \<le> 0 \<and> can_stage (if own then on_staging op else off_staging op) cnt"
    show "\<exists>op'. addInterp num w vars cnt op = Some op'
                 \<and> on_vars op' = on_vars op \<and> on_weights op' = on_weights op
                 \<and> off_vars op' = off_vars op \<and> off_weights op' = off_weights op"
    proof (cases own)
      case True
      then have r: "can_stage (on_size op, max_on_size op, max_on_weights op,
                    on_nums op, on_rowp op, on_vars op, on_weights op) cnt"
        using c by (simp add: on_staging_def)
      from stage_row_nonpositive[OF ok(1)[unfolded on_staging_def] conjunct1[OF c] r, of num w vars]
      show ?thesis
        unfolding addInterp_on[OF oT[OF True]] by (auto simp: on_staging_def)
    next
      case False
      then have r: "can_stage (off_size op, max_off_size op, max_off_weights op,
                    off_nums op, off_rowp op, off_vars op, off_weights op) cnt"
        using c by (simp add: off_staging_def)
      from stage_row_nonpositive[OF ok(2)[unfolded off_staging_def] conjunct1[OF c] r, of num w vars]
      show ?thesis
        unfolding addInterp_off[OF oF[OF False]] by (auto simp: off_staging_def)
    qed
  qed
qed

text \<open>
  The call with the size \<open>-1\<close> is staged as a row of its own, nothing is printed, and the
  next call writes over the second weight of row 0: after \<open>finalize\<close> row 0 has the
  weights 1/4 and 3/4 instead of 1/2 and 1/2.
\<close>

theorem negative_size_row_is_staged:
  "case (unfinalized_negative, scenario_negative, scenario_valid) of
     (Some op, Some [(fin, err)], Some [(fin', err')]) \<Rightarrow>
        on_size op = 3 \<and> on_nums op = [0, 1, 1] \<and> on_rowp op = [0, 2, 1, 2]
      \<and> on_vars op = [0, 1] \<and> on_weights op = [1, 3]
      \<and> err = []
      \<and> rowp fin = [0, 2, 3] \<and> cols fin = [0, 1, 1] \<and> weights fin = [1/4, 3/4, 1]
      \<and> rowp fin' = [0, 2, 3] \<and> cols fin' = [0, 1, 1] \<and> weights fin' = [1/2, 1/2, 1]
   | _ \<Rightarrow> False"
  by code_simp

theorem addInterp_stages_unchecked_witness:
  "case BVecInterp_new (one_rank_map 1 2) (one_rank_map 1 2) of
     Inl e \<Rightarrow> False
   | Inr (op0 :: real BVecInterp) \<Rightarrow>
      (case addInterp_calls [(7, [1], [0], 1)] op0 of
         None \<Rightarrow> False
       | Some op \<Rightarrow>
           off_nums op = [7] \<and> off_rowp op = [0, 1]
         \<and> (case addInterp 7 [] [] (-1) op of
              Some op' \<Rightarrow> off_size op' = 2 \<and> off_nums op' = [7, 7] \<and> off_rowp op' = [0, 1, 0]
                 \<and> off_vars op' = [0] \<and> off_weights op' = [1] \<and> on_nums op' = []
            | None \<Rightarrow> False))"
proof -
  have "map_sum id (\<lambda>op0 :: real BVecInterp. map_option (\<lambda>op. (on_staging op, off_staging op, outOwnerRange op, mpiRank op))
           (addInterp_calls [(7, [1], [0], 1)] op0))
          (BVecInterp_new (one_rank_map 1 2) (one_rank_map 1 2))
      = Inr (Some ((0, 2, 54, [], [0], [], []), (1, 100, 2700, [7], [0, 1], [0], [1]), [0, 2], 0))"
    by code_simp
  then obtain op0 :: "real BVecInterp" and op where
    new: "BVecInterp_new (one_rank_map 1 2) (one_rank_map 1 2) = Inr op0"
    and calls: "addInterp_calls [(7, [1], [0], 1)] op0 = Some op"
    and on: "on_staging op = (0, 2, 54, [], [0], [], [])"
    and off: "off_staging op = (1, 100, 2700, [7], [0, 1], [0], [1])"
    and rng: "outOwnerRange op = [0, 2]" and r: "mpiRank op = 0"
    by (cases "BVecInterp_new (one_rank_map 1 2) (one_rank_map 1 2) :: failure + real BVecInterp") auto
  have h3: "owned (outOwnerRange op) (mpiRank op) 7 = Some False"
    unfolding rng r by (simp add: owned_def rd_def)
  have room: "(-1::int) \<le> 0 \<and> can_stage (if False then on_staging op else off_staging op) (-1)"
    unfolding off by (simp add: can_stage_def INT_MIN_def)
  from on off have fields: "on_nums op = []" "off_size op = 1" "off_nums op = [7]"
    "off_rowp op = [0, 1]" "off_vars op = [0]" "off_weights op = [1]"
    by (simp_all add: on_staging_def off_staging_def)
  note t = addInterp_stages_unchecked[OF new calls h3, where w = "[]" and vars = "[]" and cnt = "-1"]
  from t room obtain op' where a: "addInterp 7 [] [] (-1) op = Some op'"
    and v: "off_vars op' = off_vars op" "off_weights op' = off_weights op" by auto
  from t a have s: "off_size op' = off_size op + 1" "off_nums op' = off_nums op @ [7]"
    "off_rowp op' = off_rowp op @ [last (off_rowp op) + (-1)]" "on_staging op' = on_staging op"
    by auto
  from s(4) have o: "on_nums op' = on_nums op" by (simp add: on_staging_def)
  show ?thesis
    unfolding new sum.case calls option.case using a v s(1-3) o by (simp add: fields)
qed

section \<open>The rows of the two CSR structures\<close>

lemma for_loop_append:
  "for_loop (xs @ ys) f s = Option.bind (for_loop xs f s) (for_loop ys f)"
  by (induction xs arbitrary: s) (auto split: Option.bind_split)

lemma gather_append:
  "gather R (xs @ ys) k = do { (es, k) \<leftarrow> gather R xs k; (es', k) \<leftarrow> gather R ys k; Some (es @ es', k) }"
  by (induction xs arbitrary: k) (auto split: Option.bind_split)

text \<open>
  A pass and the entries it visits: an invariant that holds of the state for the entries
  visited so far holds at the end for all of them. \<open>\<kappa>\<close> is the read cursor in the state.
\<close>

lemma pass_invariant:
  assumes "for_loop xs body s = Some sf"
    and "gather R xs (\<kappa> s) = Some (es, kf)"
    and "I pre s"
    and step: "\<And>i s s' es0 es1 k' rest. i \<in> set xs \<Longrightarrow> I es0 s \<Longrightarrow> body i s = Some s'
        \<Longrightarrow> R i (\<kappa> s) = Some (es1, k') \<Longrightarrow> pre @ es = es0 @ es1 @ rest
        \<Longrightarrow> \<kappa> s' = k' \<and> I (es0 @ es1) s'"
  shows "I (pre @ es) sf \<and> \<kappa> sf = kf"
  using assms
proof (induction xs arbitrary: s pre es)
  case Nil
  then show ?case by simp
next
  case (Cons i xs)
  from Cons.prems(1) obtain s1 where b: "body i s = Some s1" and l: "for_loop xs body s1 = Some sf"
    by (auto simp: bind_eq_Some_conv)
  from Cons.prems(2) obtain es1 k1 es2 where r: "R i (\<kappa> s) = Some (es1, k1)"
    and g: "gather R xs k1 = Some (es2, kf)" and e: "es = es1 @ es2"
    by (auto simp: bind_eq_Some_conv)
  have "\<kappa> s1 = k1 \<and> I (pre @ es1) s1"
    using Cons.prems(4)[of i pre s s1 es1 k1 es2] Cons.prems(3) b r e by simp
  then have k: "\<kappa> s1 = k1" and i1: "I (pre @ es1) s1" by simp_all
  have "I ((pre @ es1) @ es2) sf \<and> \<kappa> sf = kf"
  proof (rule Cons.IH[OF l _ i1])
    show "gather R xs (\<kappa> s1) = Some (es2, kf)" using g k by simp
  next
    fix j s s' es0 es1' k' rest
    assume "j \<in> set xs" "I es0 s" "body j s = Some s'" "R j (\<kappa> s) = Some (es1', k')"
      "(pre @ es1) @ es2 = es0 @ es1' @ rest"
    then show "\<kappa> s' = k' \<and> I (es0 @ es1') s'"
      using Cons.prems(4)[of j es0 s s' es1' k' rest] e by simp
  qed
  then show ?case using e by simp
qed

lemma gather_all:
  assumes "gather R xs k = Some (es, kf)"
    and "\<And>i k es k'. i \<in> set xs \<Longrightarrow> R i k = Some (es, k') \<Longrightarrow> \<forall>e \<in> set es. P e"
  shows "\<forall>e \<in> set es. P e"
  using assms
proof (induction xs arbitrary: k es)
  case Nil
  then show ?case by simp
next
  case (Cons i xs)
  from Cons.prems(1) obtain es1 k1 es2 where r: "R i k = Some (es1, k1)"
    and g: "gather R xs k1 = Some (es2, kf)" and e: "es = es1 @ es2"
    by (auto simp: bind_eq_Some_conv)
  have "\<forall>e \<in> set es1. P e" using Cons.prems(2)[OF _ r] by simp
  moreover have "\<forall>e \<in> set es2. P e"
  proof (rule Cons.IH[OF g])
    fix j k es k' assume "j \<in> set xs" "R j k = Some (es, k')"
    then show "\<forall>e \<in> set es. P e" using Cons.prems(2)[of j k es k'] by simp
  qed
  ultimately show ?case using e by auto
qed

lemma columns_of_append:
  "columns_of op loc (es @ es') r = columns_of op loc es r @ columns_of op loc es' r"
  by (simp add: columns_of_def)

lemma fan_append: "fan op loc (es @ es') r = fan op loc es r + fan op loc es' r"
  by (simp add: fan_def columns_of_append)

lemma fan_Nil: "fan op loc [] r = 0"
  by (simp add: fan_def columns_of_def)

lemma fan_nonneg: "0 \<le> fan op loc es r"
  by (simp add: fan_def)

lemma fan_other_row:
  assumes "\<forall>e \<in> set es. fst e = r" and "r' \<noteq> r"
  shows "fan op loc es r' = 0"
proof -
  have "filter (\<lambda>(r'', v, x). r'' = r' \<and> local_in op v = loc) es = []"
    using assms by (auto simp: filter_empty_conv)
  then show ?thesis by (simp add: fan_def columns_of_def)
qed

lemma fan_single:
  "fan op loc [(r, v, x)] r' = (if r = r' \<and> local_in op v = loc then 1 else 0)"
  by (simp add: fan_def columns_of_def)

lemma counted_start: "counted op loc rp0 [] rp0"
  by (simp add: counted_def fan_Nil)

lemma bump_Some:
  assumes "bump a i d = Some a'"
  shows "0 \<le> i" and "i < int (length a)" and "a' = a[nat i := a ! nat i + d]"
  using assms by (auto simp: bump_def rd_def wr_def bind_eq_Some_conv split: if_splits)

lemma counted_row:
  assumes c: "counted op loc rp0 es0 rp"
    and rows: "\<forall>e \<in> set es1. fst e = r"
    and b: "bump rp (r + 1) (fan op loc es1 r) = Some rp'"
  shows "counted op loc rp0 (es0 @ es1) rp'"
proof -
  note bs = bump_Some[OF b]
  from c have l: "length rp = length rp0"
    and v: "\<And>q. 0 \<le> q \<Longrightarrow> q < int (length rp0) \<Longrightarrow> rp ! nat q = rp0 ! nat q + fan op loc es0 (q - 1)"
    by (auto simp: counted_def)
  show ?thesis
    unfolding counted_def
  proof (intro conjI allI impI)
    show "length rp' = length rp0" using bs(3) l by simp
  next
    fix q assume q: "0 \<le> q \<and> q < int (length rp0)"
    show "rp' ! nat q = rp0 ! nat q + fan op loc (es0 @ es1) (q - 1)"
    proof (cases "q = r + 1")
      case True
      have "nat (r + 1) < length rp" using bs(1,2) by linarith
      then have "rp' ! nat q = rp ! nat q + fan op loc es1 r" using bs(3) True by simp
      then show ?thesis using v[of q] q True by (simp add: fan_append)
    next
      case False
      then have "nat q \<noteq> nat (r + 1)" using q bs(1) by linarith
      then have "rp' ! nat q = rp ! nat q" using bs(3) by simp
      moreover have "fan op loc es1 (q - 1) = 0" using fan_other_row[OF rows, of "q - 1"] False by simp
      ultimately show ?thesis using v[of q] q by (simp add: fan_append)
    qed
  qed
qed

lemma count_entry_fan:
  assumes "count_entry op v (fan op True es r, fan op False es r) = Some c"
  shows "c = (fan op True (es @ [(r, v, x)]) r, fan op False (es @ [(r, v, x)]) r)"
  using assms
  by (auto simp: count_entry_def bind_eq_Some_conv fan_append fan_single local_in_def)

text \<open>The rows a read gives all carry the number of the row read.\<close>

lemma gather_single_rows:
  assumes "gather (\<lambda>j k. Option.bind (f j k) (\<lambda>(v, x, k'). Some ([(r, v, x)], k'))) js k = Some (es, kf)"
  shows "\<forall>e \<in> set es. fst e = r"
  by (rule gather_all[OF assms]) (auto simp: bind_eq_Some_conv)

lemma count_row_on:
  assumes l: "for_loop js (\<lambda>j c. do { v \<leftarrow> rd vs j; count_entry op v c }) (0, 0) = Some c"
    and g: "gather (\<lambda>j u. do { v \<leftarrow> rd vs j; x \<leftarrow> rd ws j; Some ([(r, v, x)], u) }) js u = Some (es, u')"
  shows "c = (fan op True es r, fan op False es r)" and "\<forall>e \<in> set es. fst e = r"
proof -
  have "(c = (fan op True ([] @ es) r, fan op False ([] @ es) r)) \<and> u = u'"
  proof (rule pass_invariant[where I = "\<lambda>es c. c = (fan op True es r, fan op False es r)"
        and \<kappa> = "\<lambda>_. u", OF l g])
    show "(0, 0) = (fan op True [] r, fan op False [] r)" by (simp add: fan_Nil)
  next
    fix j s s' es0 es1 k' rest
    assume s: "s = (fan op True es0 r, fan op False es0 r)"
      and b: "do { v \<leftarrow> rd vs j; count_entry op v s } = Some s'"
      and r: "do { v \<leftarrow> rd vs j; x \<leftarrow> rd ws j; Some ([(r, v, x)], u) } = Some (es1, k')"
    from r obtain v x where v: "rd vs j = Some v" and e: "es1 = [(r, v, x)]" and k: "k' = u"
      by (auto simp: bind_eq_Some_conv)
    from b v s have "count_entry op v (fan op True es0 r, fan op False es0 r) = Some s'" by simp
    from count_entry_fan[OF this, of x] show "u = k' \<and> s' = (fan op True (es0 @ es1) r, fan op False (es0 @ es1) r)"
      using e k by simp
  qed
  then show "c = (fan op True es r, fan op False es r)" by simp
  show "\<forall>e \<in> set es. fst e = r"
    by (rule gather_all[OF g]) (auto simp: bind_eq_Some_conv)
qed

lemma count_row_in:
  assumes l: "for_loop js (\<lambda>j (c, k). do { v \<leftarrow> load vs k; c \<leftarrow> count_entry op v c; Some (c, k + 1) })
                ((0, 0), k) = Some (c, k')"
    and g: "gather (\<lambda>j k. do { v \<leftarrow> load vs k; x \<leftarrow> load ws k; Some ([(r, v, x)], k + 1) }) js k
              = Some (es, kf)"
  shows "c = (fan op True es r, fan op False es r)" and "k' = kf" and "\<forall>e \<in> set es. fst e = r"
proof -
  have g': "gather (\<lambda>j k. do { v \<leftarrow> load vs k; x \<leftarrow> load ws k; Some ([(r, v, x)], k + 1) }) js
              (snd ((0::int, 0::int), k)) = Some (es, kf)"
    using g by simp
  have "fst (c, k') = (fan op True ([] @ es) r, fan op False ([] @ es) r) \<and> snd (c, k') = kf"
  proof (rule pass_invariant[where I = "\<lambda>es s. fst s = (fan op True es r, fan op False es r)"
        and \<kappa> = snd, OF l g'])
    show "fst ((0::int, 0::int), k) = (fan op True [] r, fan op False [] r)" by (simp add: fan_Nil)
  next
    fix j s s' es0 es1 k' rest
    assume s: "fst s = (fan op True es0 r, fan op False es0 r)"
      and b: "(case s of (c, k) \<Rightarrow> do { v \<leftarrow> load vs k; c \<leftarrow> count_entry op v c; Some (c, k + 1) }) = Some s'"
      and r: "do { v \<leftarrow> load vs (snd s); x \<leftarrow> load ws (snd s); Some ([(r, v, x)], snd s + 1) } = Some (es1, k')"
    from r obtain v x where v: "load vs (snd s) = Some v" and e: "es1 = [(r, v, x)]" and k: "k' = snd s + 1"
      by (auto simp: bind_eq_Some_conv)
    from b v s obtain c' where c: "count_entry op v (fan op True es0 r, fan op False es0 r) = Some c'"
      and s': "s' = (c', snd s + 1)"
      by (cases s) (auto simp: bind_eq_Some_conv)
    from count_entry_fan[OF c, of x]
    show "snd s' = k' \<and> fst s' = (fan op True (es0 @ es1) r, fan op False (es0 @ es1) r)"
      using e k s' by simp
  qed
  then show "c = (fan op True es r, fan op False es r)" and "k' = kf" by simp_all
  show "\<forall>e \<in> set es. fst e = r"
    by (rule gather_all[OF g]) (auto simp: bind_eq_Some_conv)
qed

lemma count_on_counted:
  assumes c: "count_on op (rp0, erp0, err0) = Some (rp, erp, err)"
    and g: "staged_on op = Some es"
  shows "counted op True rp0 es rp" and "counted op False erp0 es erp"
proof -
  let ?I = "\<lambda>es (s :: int list \<times> int list \<times> message list).
      counted op True rp0 es (fst s) \<and> counted op False erp0 es (fst (snd s))"
  from g obtain u where g': "gather (read_on op) [0..on_size op - 1] () = Some (es, u)"
    by (auto simp: staged_on_def)
  have "?I ([] @ es) (rp, erp, err) \<and> () = u"
  proof (rule pass_invariant[where I = ?I and \<kappa> = "\<lambda>_. ()", OF c[unfolded count_on_def] g'])
    show "?I [] (rp0, erp0, err0)" by (simp add: counted_start)
  next
    fix i s s' es0 es1 k' rest
    assume I: "?I es0 s"
      and b: "(case s of (rp, erp, err) \<Rightarrow> do {
          num \<leftarrow> rd (on_nums op) i;
          own \<leftarrow> owned (outOwnerRange op) (mpiRank op) num;
          if own then do {
            lo \<leftarrow> rd (outOwnerRange op) (mpiRank op);
            let num = num - lo;
            j0 \<leftarrow> rd (on_rowp op) i;
            j1 \<leftarrow> rd (on_rowp op) (i + 1);
            (num_local, num_ext) \<leftarrow> for_loop [j0..j1 - 1]
               (\<lambda>j c. do { v \<leftarrow> rd (on_vars op) j; count_entry op v c })
               (0, 0);
            rp \<leftarrow> bump rp (num + 1) num_local;
            erp \<leftarrow> bump erp (num + 1) num_ext;
            Some (rp, erp, err) }
          else Some (rp, erp, err @ [ErrLocalOutOfRange]) }) = Some s'"
      and r: "read_on op i () = Some (es1, k')"
    obtain rp1 erp1 err1 where s: "s = (rp1, erp1, err1)" by (cases s)
    from r obtain num own where num: "rd (on_nums op) i = Some num"
      and own: "owned (outOwnerRange op) (mpiRank op) num = Some own"
      by (auto simp: read_on_def bind_eq_Some_conv)
    show "() = k' \<and> ?I (es0 @ es1) s'"
    proof (cases own)
      case False
      then have "es1 = []" using r num own by (simp add: read_on_def)
      moreover have "s' = (rp1, erp1, err1 @ [ErrLocalOutOfRange])" using b s num own False by simp
      ultimately show ?thesis using I s by simp
    next
      case True
      from r num own True obtain lo j0 j1 where lo: "rd (outOwnerRange op) (mpiRank op) = Some lo"
        and j0: "rd (on_rowp op) i = Some j0" and j1: "rd (on_rowp op) (i + 1) = Some j1"
        and gi: "gather (\<lambda>j u. do {
                    v \<leftarrow> rd (on_vars op) j;
                    x \<leftarrow> rd (on_weights op) j;
                    Some ([(num - lo, v, x)], u) }) [j0..j1 - 1] () = Some (es1, k')"
        by (auto simp: read_on_def bind_eq_Some_conv)
      from b s num own True lo j0 j1 obtain c rp2 erp2 where
        li: "for_loop [j0..j1 - 1] (\<lambda>j c. do { v \<leftarrow> rd (on_vars op) j; count_entry op v c }) (0, 0) = Some c"
        and b1: "bump rp1 (num - lo + 1) (fst c) = Some rp2"
        and b2: "bump erp1 (num - lo + 1) (snd c) = Some erp2"
        and s': "s' = (rp2, erp2, err1)"
        by (auto simp: bind_eq_Some_conv Let_def)
      note cr = count_row_on[OF li gi]
      have "counted op True rp0 (es0 @ es1) rp2"
        using counted_row[OF _ cr(2), of op True rp0 es0 rp1 rp2] I s b1 cr(1) by simp
      moreover have "counted op False erp0 (es0 @ es1) erp2"
        using counted_row[OF _ cr(2), of op False erp0 es0 erp1 erp2] I s b2 cr(1) by simp
      ultimately show ?thesis using s' by simp
    qed
  qed
  then show "counted op True rp0 es rp" and "counted op False erp0 es erp" by simp_all
qed

lemma count_in_counted:
  assumes c: "count_in op inb (0, rp1, erp1, err1) = Some (k, rp, erp, err)"
    and g: "staged_in op inb = Some es"
    and p: "counted op True rp0 pre rp1" "counted op False erp0 pre erp1"
  shows "counted op True rp0 (pre @ es) rp" and "counted op False erp0 (pre @ es) erp"
proof -
  let ?I = "\<lambda>es (s :: int \<times> int list \<times> int list \<times> message list).
      counted op True rp0 es (fst (snd s)) \<and> counted op False erp0 es (fst (snd (snd s)))"
  from g obtain kf where g': "gather (read_in op inb) [0..in_size inb - 1] (fst (0::int, rp1, erp1, err1)) = Some (es, kf)"
    by (auto simp: staged_in_def)
  have "?I (pre @ es) (k, rp, erp, err) \<and> fst (k, rp, erp, err) = kf"
  proof (rule pass_invariant[where I = ?I and \<kappa> = fst, OF c[unfolded count_in_def] g'])
    show "?I pre (0, rp1, erp1, err1)" using p by simp
  next
    fix i s s' es0 es1 k' rest
    assume I: "?I es0 s"
      and b: "(case s of (k, rp, erp, err) \<Rightarrow> do {
          num \<leftarrow> load (in_nums inb) i;
          own \<leftarrow> owned (outOwnerRange op) (mpiRank op) num;
          if own then do {
            lo \<leftarrow> rd (outOwnerRange op) (mpiRank op);
            let num = num - lo;
            n \<leftarrow> load (in_weights_per_row inb) i;
            ((num_local, num_ext), k) \<leftarrow> for_loop [0..n - 1]
               (\<lambda>j (c, k). do {
                  v \<leftarrow> load (in_vars inb) k;
                  c \<leftarrow> count_entry op v c;
                  Some (c, k + 1) })
               ((0, 0), k);
            rp \<leftarrow> bump rp (num + 1) num_local;
            erp \<leftarrow> bump erp (num + 1) num_ext;
            Some (k, rp, erp, err) }
          else do {
            n \<leftarrow> load (in_weights_per_row inb) i;
            Some (k + n, rp, erp, err @ [ErrLocalOutOfRange]) } }) = Some s'"
      and r: "read_in op inb i (fst s) = Some (es1, k')"
    obtain k1 rp1 erp1 err1 where s: "s = (k1, rp1, erp1, err1)" by (cases s)
    from r obtain num own where num: "load (in_nums inb) i = Some num"
      and own: "owned (outOwnerRange op) (mpiRank op) num = Some own"
      by (auto simp: read_in_def bind_eq_Some_conv)
    show "fst s' = k' \<and> ?I (es0 @ es1) s'"
    proof (cases own)
      case False
      from r num own False s obtain n where n: "load (in_weights_per_row inb) i = Some n"
        and e: "es1 = []" and k: "k' = k1 + n"
        by (auto simp: read_in_def bind_eq_Some_conv)
      have "s' = (k1 + n, rp1, erp1, err1 @ [ErrLocalOutOfRange])" using b s num own False n by simp
      then show ?thesis using I s e k by simp
    next
      case True
      from r num own True s obtain lo n where lo: "rd (outOwnerRange op) (mpiRank op) = Some lo"
        and n: "load (in_weights_per_row inb) i = Some n"
        and gi: "gather (\<lambda>j k. do {
                    v \<leftarrow> load (in_vars inb) k;
                    x \<leftarrow> load (in_weights inb) k;
                    Some ([(num - lo, v, x)], k + 1) }) [0..n - 1] k1 = Some (es1, k')"
        by (auto simp: read_in_def bind_eq_Some_conv)
      from b s num own True lo n obtain c k2 rp2 erp2 where
        li: "for_loop [0..n - 1]
               (\<lambda>j (c, k). do {
                  v \<leftarrow> load (in_vars inb) k;
                  c \<leftarrow> count_entry op v c;
                  Some (c, k + 1) })
               ((0, 0), k1) = Some (c, k2)"
        and b1: "bump rp1 (num - lo + 1) (fst c) = Some rp2"
        and b2: "bump erp1 (num - lo + 1) (snd c) = Some erp2"
        and s': "s' = (k2, rp2, erp2, err1)"
        by (auto simp: bind_eq_Some_conv Let_def)
      note cr = count_row_in[OF li gi]
      have "counted op True rp0 (es0 @ es1) rp2"
        using counted_row[OF _ cr(3), of op True rp0 es0 rp1 rp2] I s b1 cr(1) by simp
      moreover have "counted op False erp0 (es0 @ es1) erp2"
        using counted_row[OF _ cr(3), of op False erp0 es0 erp1 erp2] I s b2 cr(1) by simp
      ultimately show ?thesis using s' cr(2) by simp
    qed
  qed
  then show "counted op True rp0 (pre @ es) rp" and "counted op False erp0 (pre @ es) erp" by simp_all
qed

text \<open>The running sums: cell 0 is 0 and every cell adds its count to the cell before.\<close>

lemma running_sums_result:
  assumes r: "running_sums n rp = Some rs" and n: "0 \<le> n" and l: "int (length rp) = n + 1"
  shows "length rs = length rp" and "rs ! 0 = 0"
    and "\<And>q. 0 \<le> q \<Longrightarrow> q < n \<Longrightarrow> rs ! nat (q + 1) = rs ! nat q + rp ! nat (q + 1)"
proof -
  from r obtain rp1 where w: "wr rp 0 0 = Some rp1"
    and f: "for_loop [0..n - 1] (\<lambda>i rp. do { a \<leftarrow> rd rp i; bump rp (i + 1) a }) rp1 = Some rs"
    by (auto simp: running_sums_def bind_eq_Some_conv)
  from w have rp1: "rp1 = rp[0 := 0]" by (auto simp: wr_def split: if_splits)
  let ?P = "\<lambda>i (a :: int list). length a = length rp \<and> a ! 0 = 0
      \<and> (\<forall>q. 0 \<le> q \<and> q < i \<longrightarrow> a ! nat (q + 1) = a ! nat q + rp ! nat (q + 1))
      \<and> (\<forall>q. i < q \<and> q < int (length rp) \<longrightarrow> a ! nat q = rp ! nat q)"
  have "?P n rs"
  proof (rule for_loop_upto_invariant[where P = ?P, OF f n])
    have "0 < length rp" using l n by linarith
    then show "?P 0 rp1" using rp1 by auto
  next
    fix i a a' assume i: "0 \<le> i" "i < n" and P: "?P i a"
      and b: "do { x \<leftarrow> rd a i; bump a (i + 1) x } = Some a'"
    from P have la: "length a = length rp" by simp
    from b i la l have a': "a' = a[nat (i + 1) := a ! nat (i + 1) + a ! nat i]"
      by (auto simp: rd_def bind_eq_Some_conv dest: bump_Some(3) split: if_splits)
    have ni: "nat (i + 1) < length a" "nat (i + 1) = Suc (nat i)" using i l la by linarith+
    show "?P (i + 1) a'"
    proof (intro conjI allI impI)
      show "length a' = length rp" using a' la by simp
      show "a' ! 0 = 0" using a' P ni by simp
    next
      fix q assume q: "0 \<le> q \<and> q < i + 1"
      show "a' ! nat (q + 1) = a' ! nat q + rp ! nat (q + 1)"
      proof (cases "q = i")
        case True
        have "a ! nat (i + 1) = rp ! nat (i + 1)" using P i l by simp
        then show ?thesis using a' ni True by simp
      next
        case False
        then have qi: "q < i" using q by simp
        then have "nat (q + 1) \<noteq> nat (i + 1)" "nat q \<noteq> nat (i + 1)" using q i by linarith+
        then show ?thesis using a' P q qi by simp
      qed
    next
      fix q assume q: "i + 1 < q \<and> q < int (length rp)"
      then have "nat q \<noteq> nat (i + 1)" using i by linarith
      then show "a' ! nat q = rp ! nat q" using a' P q by simp
    qed
  qed
  then show "length rs = length rp" and "rs ! 0 = 0"
    and "\<And>q. 0 \<le> q \<Longrightarrow> q < n \<Longrightarrow> rs ! nat (q + 1) = rs ! nat q + rp ! nat (q + 1)"
    by simp_all
qed

lemma row_starts_mono:
  assumes "row_starts op loc es rs"
  shows "0 \<le> a \<Longrightarrow> a \<le> b \<Longrightarrow> b < int (length rs) \<Longrightarrow> rs ! nat a \<le> rs ! nat b"
proof (induction "nat (b - a)" arbitrary: b)
  case 0
  then show ?case by simp
next
  case (Suc m)
  then have ab: "a < b" by linarith
  have "rs ! nat a \<le> rs ! nat (b - 1)"
    using Suc.hyps(1)[of "b - 1"] Suc.hyps(2) Suc.prems ab by simp
  moreover have "rs ! nat (b - 1 + 1) = rs ! nat (b - 1) + fan op loc es (b - 1)"
  proof -
    from assms have "\<forall>q. 0 \<le> q \<and> q + 1 < int (length rs) \<longrightarrow> rs ! nat (q + 1) = rs ! nat q + fan op loc es q"
      by (simp add: row_starts_def)
    then have "0 \<le> b - 1 \<and> b - 1 + 1 < int (length rs) \<longrightarrow> rs ! nat (b - 1 + 1) = rs ! nat (b - 1) + fan op loc es (b - 1)"
      by (rule spec)
    then show ?thesis using Suc.prems ab by simp
  qed
  ultimately show ?case using fan_nonneg[of op loc es "b - 1"] by simp
qed

lemma load_store:
  assumes "store cs p v = Some cs'"
  shows "load cs' p' = (if p' = p then Some v else load cs p')" and "length cs' = length cs"
    and "0 \<le> p" and "p < int (length cs)"
  using assms
  by (auto simp: store_def load_def wr_def rd_def nth_list_update split: if_splits)

lemma bump_nth:
  assumes "bump a i d = Some a'" and "0 \<le> q"
  shows "a' ! nat q = (if q = i then a ! nat i + d else a ! nat q)"
proof -
  note b = bump_Some[OF assms(1)]
  have "nat i < length a" using b(1,2) by linarith
  moreover have "q \<noteq> i \<Longrightarrow> nat q \<noteq> nat i" using b(1) assms(2) by linarith
  ultimately show ?thesis using b(3) by auto
qed

lemma columns_of_single:
  "columns_of op loc [(r, v, x)] r' = (if r = r' \<and> local_in op v = loc then [v] else [])"
  by (simp add: columns_of_def)

lemma placed_other:
  assumes "placed op loc rs es rp cs" and "local_in op v \<noteq> loc"
  shows "placed op loc rs (es @ [(r, v, x)]) rp cs"
proof -
  have f: "fan op loc (es @ [(r, v, x)]) q = fan op loc es q" for q
    using assms(2) by (simp add: fan_append fan_single)
  have c: "columns_of op loc (es @ [(r, v, x)]) q = columns_of op loc es q" for q
    using assms(2) by (simp add: columns_of_append columns_of_single)
  have s: "(r', v', x') \<in> set (es @ [(r, v, x)]) \<and> local_in op v' = loc
       \<longleftrightarrow> (r', v', x') \<in> set es \<and> local_in op v' = loc" for r' v' x'
    using assms(2) by auto
  show ?thesis using assms(1) unfolding placed_def f c s .
qed

lemma placed_start:
  assumes "rs \<noteq> []" and "int (length cs) = last rs"
  shows "placed op loc rs [] rs cs"
  using assms by (auto simp: placed_def fan_Nil)

lemma placed_one:
  assumes P: "placed op loc rs es0 rp cs"
    and S: "row_starts op loc ess rs"
    and T: "ess = es0 @ [(r, v, x)] @ rest"
    and L: "local_in op v = loc"
    and rd: "rd rp r = Some p" and st: "store cs p v = Some cs'" and b: "bump rp r 1 = Some rp'"
  shows "placed op loc rs (es0 @ [(r, v, x)]) rp' cs'"
proof -
  let ?n = "int (length rs)"
  from rd have r0: "0 \<le> r" and rl: "r < int (length rp)" and p: "p = rp ! nat r"
    by (auto simp: rd_def split: if_splits)
  note ls = load_store[OF st]
  from P have len: "length rp = length rs" and lcs: "int (length cs) = last rs"
    and lrp: "last rp = last rs"
    and cur: "\<And>q. 0 \<le> q \<Longrightarrow> q + 1 < ?n \<Longrightarrow> rp ! nat q = rs ! nat q + fan op loc es0 q"
    and cells: "\<And>q p. 0 \<le> q \<Longrightarrow> q + 1 < ?n \<Longrightarrow> rs ! nat q \<le> p \<Longrightarrow> p < rp ! nat q \<Longrightarrow>
          \<exists>v. load cs p = Some v \<and> v \<in> set (columns_of op loc es0 q)"
    and ents: "\<And>r v x. (r, v, x) \<in> set es0 \<Longrightarrow> local_in op v = loc \<Longrightarrow>
          0 \<le> r \<and> r + 1 < ?n \<and> (\<exists>p. rs ! nat r \<le> p \<and> p < rp ! nat r \<and> load cs p = Some v)"
    unfolding placed_def by blast+
  from S have ne: "rs \<noteq> []"
    and nxt: "\<And>q. 0 \<le> q \<Longrightarrow> q + 1 < ?n \<Longrightarrow> rs ! nat (q + 1) = rs ! nat q + fan op loc ess q"
    by (auto simp: row_starts_def)
  have nerp: "rp \<noteq> []" using ne len by auto
  have r1: "r + 1 < ?n"
  proof (rule ccontr)
    assume "\<not> r + 1 < ?n"
    then have "nat r = length rp - 1" using rl len by linarith
    then have "p = last rp" using p nerp by (simp add: last_conv_nth)
    then show False using ls(4) lcs lrp by simp
  qed
  have ft: "fan op loc ess q = fan op loc es0 q + fan op loc [(r, v, x)] q + fan op loc rest q" for q
    unfolding T using fan_append[of op loc es0 "[(r, v, x)] @ rest" q] fan_append[of op loc "[(r, v, x)]" rest q]
    by (simp del: append.simps)
  have pr: "p = rs ! nat r + fan op loc es0 r" using cur[OF r0 r1] p by simp
  have pend: "p < rs ! nat (r + 1)"
    using nxt[OF r0 r1] ft[of r] pr L fan_nonneg[of op loc rest r] by (simp add: fan_single)
  have bound: "rp ! nat q \<le> rs ! nat (q + 1)" if "0 \<le> q" "q + 1 < ?n" for q
    using cur[OF that] nxt[OF that] ft[of q] fan_nonneg[of op loc rest q]
      fan_nonneg[of op loc "[(r, v, x)]" q] by simp
  have start: "rs ! nat q \<le> rp ! nat q" if "0 \<le> q" "q + 1 < ?n" for q
    using cur[OF that] fan_nonneg[of op loc es0 q] by simp
  have apart: "p' \<noteq> p" if q: "0 \<le> q" "q + 1 < ?n" and p': "rs ! nat q \<le> p'" "p' < rp ! nat q" for q p'
  proof -
    consider "q < r" | "q = r" | "r < q" by linarith
    then show ?thesis
    proof cases
      case 1
      have "rs ! nat (q + 1) \<le> rs ! nat r" using row_starts_mono[OF S, of "q + 1" r] q 1 r1 by simp
      then show ?thesis using bound[OF q] p' start[OF r0 r1] p by linarith
    next
      case 2
      then show ?thesis using p' p by simp
    next
      case 3
      have "rs ! nat (r + 1) \<le> rs ! nat q" using row_starts_mono[OF S, of "r + 1" q] q 3 r0 by simp
      then show ?thesis using pend p' by linarith
    qed
  qed
  note bs = bump_Some[OF b]
  have l': "length rp' = length rs" using bs(3) len by simp
  have nth': "rp' ! nat q = (if q = r then rp ! nat r + 1 else rp ! nat q)" if "0 \<le> q" for q
    using bump_nth[OF b that] .
  have nerp': "rp' \<noteq> []" using l' ne by auto
  have nl: "nat (?n - 1) = length rs - 1" by simp
  have "last rp' = rp' ! nat (?n - 1)" unfolding nl using last_conv_nth[OF nerp'] l' by simp
  also have "\<dots> = rp ! nat (?n - 1)" using nth'[of "?n - 1"] r0 r1 ne by simp
  also have "\<dots> = last rp" unfolding nl using last_conv_nth[OF nerp] len by simp
  finally have last': "last rp' = last rs" using lrp by simp
  have col: "columns_of op loc (es0 @ [(r, v, x)]) q
      = columns_of op loc es0 q @ (if q = r then [v] else [])" for q
    using L by (auto simp: columns_of_append columns_of_single)
  show ?thesis
    unfolding placed_def
  proof (intro conjI allI impI)
    show "length rp' = length rs" by (rule l')
    show "int (length cs') = last rs" using ls(2) lcs by simp
    show "last rp' = last rs" by (rule last')
  next
    fix q assume q: "0 \<le> q \<and> q + 1 < ?n"
    then show "rp' ! nat q = rs ! nat q + fan op loc (es0 @ [(r, v, x)]) q"
      using nth'[of q] cur[of q] L by (auto simp: fan_append fan_single)
  next
    fix q p' assume a: "0 \<le> q \<and> q + 1 < ?n \<and> rs ! nat q \<le> p' \<and> p' < rp' ! nat q"
    then have q: "0 \<le> q" "q + 1 < ?n" and lo: "rs ! nat q \<le> p'" and hi: "p' < rp' ! nat q" by simp_all
    show "\<exists>v'. load cs' p' = Some v' \<and> v' \<in> set (columns_of op loc (es0 @ [(r, v, x)]) q)"
    proof (cases "p' = p")
      case True
      have "q = r"
      proof (rule ccontr)
        assume "q \<noteq> r"
        then have "p' < rp ! nat q" using hi nth'[OF q(1)] by simp
        from apart[OF q lo this] True show False by simp
      qed
      then show ?thesis using True ls(1) col by simp
    next
      case False
      then have "p' < rp ! nat q" using hi nth'[OF q(1)] p by (auto split: if_splits)
      from cells[OF q lo this] obtain v' where "load cs p' = Some v'" "v' \<in> set (columns_of op loc es0 q)"
        by blast
      then show ?thesis using False ls(1) col by auto
    qed
  next
    fix r' v' x' assume a: "(r', v', x') \<in> set (es0 @ [(r, v, x)]) \<and> local_in op v' = loc"
    have "0 \<le> r' \<and> r' + 1 < ?n \<and> (\<exists>p'. rs ! nat r' \<le> p' \<and> p' < rp' ! nat r' \<and> load cs' p' = Some v')"
    proof (cases "(r', v', x') \<in> set es0")
      case True
      from ents[OF True] a obtain p' where q: "0 \<le> r'" "r' + 1 < ?n"
        and p': "rs ! nat r' \<le> p'" "p' < rp ! nat r'" "load cs p' = Some v'"
        by blast
      have "p' \<noteq> p" using apart[OF q p'(1,2)] .
      then have "load cs' p' = Some v'" using ls(1) p'(3) by simp
      moreover have "p' < rp' ! nat r'" using p'(2) nth'[OF q(1)] by auto
      ultimately show ?thesis using q p'(1) by blast
    next
      case False
      then have e: "r' = r" "v' = v" using a by auto
      have "rs ! nat r \<le> p" using start[OF r0 r1] p by simp
      moreover have "p < rp' ! nat r" using nth'[OF r0] p by simp
      moreover have "load cs' p = Some v" using ls(1) by simp
      ultimately show ?thesis using e r0 r1 by blast
    qed
    then show "0 \<le> r'" and "r' + 1 < ?n"
      and "\<exists>p'. rs ! nat r' \<le> p' \<and> p' < rp' ! nat r' \<and> load cs' p' = Some v'"
      by simp_all
  qed
qed

text \<open>The body \<open>place_entry\<close> on both parts at once.\<close>

lemma place_entry_placed:
  assumes P: "placed op True rs es0 rp cs" and E: "placed op False ers es0 erp ecs"
    and S: "row_starts op True ess rs" and SE: "row_starts op False ess ers"
    and T: "ess = es0 @ [(r, v, x)] @ rest"
    and pl: "place_entry op r v (rp, cs, erp, ecs) = Some (rp', cs', erp', ecs')"
  shows "placed op True rs (es0 @ [(r, v, x)]) rp' cs'"
    and "placed op False ers (es0 @ [(r, v, x)]) erp' ecs'"
proof -
  from pl obtain loc where o: "owned (inOwnerRange op) (mpiRank op) v = Some loc"
    by (auto simp: place_entry_def bind_eq_Some_conv)
  have l: "local_in op v = loc" using o by (simp add: local_in_def)
  have "placed op True rs (es0 @ [(r, v, x)]) rp' cs' \<and> placed op False ers (es0 @ [(r, v, x)]) erp' ecs'"
  proof (cases loc)
    case True
    from pl o True obtain p where "rd rp r = Some p" "store cs p v = Some cs'" "bump rp r 1 = Some rp'"
      and same: "erp' = erp" "ecs' = ecs"
      by (auto simp: place_entry_def bind_eq_Some_conv)
    from placed_one[OF P S T _ this(1,2,3)] placed_other[OF E, of v r x] l True same
    show ?thesis by simp
  next
    case False
    from pl o False obtain p where "rd erp r = Some p" "store ecs p v = Some ecs'" "bump erp r 1 = Some erp'"
      and same: "rp' = rp" "cs' = cs"
      by (auto simp: place_entry_def bind_eq_Some_conv)
    from placed_one[OF E SE T _ this(1,2,3)] placed_other[OF P, of v r x] l False same
    show ?thesis by simp
  qed
  then show "placed op True rs (es0 @ [(r, v, x)]) rp' cs'"
    and "placed op False ers (es0 @ [(r, v, x)]) erp' ecs'" by simp_all
qed

lemma placed_both_step:
  assumes "placed_both op rs ers es0 st"
    and "row_starts op True ess rs" and "row_starts op False ess ers"
    and "ess = es0 @ [(r, v, x)] @ rest"
    and "place_entry op r v st = Some st'"
  shows "placed_both op rs ers (es0 @ [(r, v, x)]) st'"
proof -
  obtain rp cs erp ecs where s: "st = (rp, cs, erp, ecs)" by (cases st)
  obtain rp' cs' erp' ecs' where s': "st' = (rp', cs', erp', ecs')" by (cases st')
  from assms(1) s have P: "placed op True rs es0 rp cs" and E: "placed op False ers es0 erp ecs"
    by (simp_all add: placed_both_def)
  from place_entry_placed[OF P E assms(2,3,4) assms(5)[unfolded s s']]
  show ?thesis unfolding s' by (simp add: placed_both_def)
qed

lemma place_row_on:
  assumes l: "for_loop js (\<lambda>j st. do { v \<leftarrow> rd vs j; place_entry op r v st }) st = Some st'"
    and g: "gather (\<lambda>j u. do { v \<leftarrow> rd vs j; x \<leftarrow> rd ws j; Some ([(r, v, x)], u) }) js u = Some (es1, u')"
    and P: "placed_both op rs ers es0 st"
    and S: "row_starts op True ess rs" "row_starts op False ess ers"
    and T: "ess = es0 @ es1 @ rest"
  shows "placed_both op rs ers (es0 @ es1) st'"
proof -
  have "placed_both op rs ers (es0 @ es1) st' \<and> u = u'"
  proof (rule pass_invariant[where I = "placed_both op rs ers" and \<kappa> = "\<lambda>_. u", OF l g P])
    fix j s s' esa esb k' rest'
    assume I: "placed_both op rs ers esa s"
      and b: "do { v \<leftarrow> rd vs j; place_entry op r v s } = Some s'"
      and r: "do { v \<leftarrow> rd vs j; x \<leftarrow> rd ws j; Some ([(r, v, x)], u) } = Some (esb, k')"
      and t: "es0 @ es1 = esa @ esb @ rest'"
    from r obtain v x where v: "rd vs j = Some v" and e: "esb = [(r, v, x)]" and k: "k' = u"
      by (auto simp: bind_eq_Some_conv)
    from b v have pe: "place_entry op r v s = Some s'" by simp
    have "ess = esa @ [(r, v, x)] @ (rest' @ rest)" using T t e by simp
    from placed_both_step[OF I S this pe] show "u = k' \<and> placed_both op rs ers (esa @ esb) s'"
      using e k by simp
  qed
  then show ?thesis by simp
qed

lemma place_row_in:
  assumes l: "for_loop js (\<lambda>j (k, st). do {
                 v \<leftarrow> load vs k;
                 st \<leftarrow> place_entry op r v st;
                 Some (k + 1, st) }) (k, st) = Some (k', st')"
    and g: "gather (\<lambda>j k. do { v \<leftarrow> load vs k; x \<leftarrow> load ws k; Some ([(r, v, x)], k + 1) }) js k
              = Some (es1, kf)"
    and P: "placed_both op rs ers es0 st"
    and S: "row_starts op True ess rs" "row_starts op False ess ers"
    and T: "ess = es0 @ es1 @ rest"
  shows "placed_both op rs ers (es0 @ es1) st'" and "k' = kf"
proof -
  have g': "gather (\<lambda>j k. do { v \<leftarrow> load vs k; x \<leftarrow> load ws k; Some ([(r, v, x)], k + 1) }) js
              (fst (k, st)) = Some (es1, kf)"
    using g by simp
  have P': "placed_both op rs ers es0 (snd (k, st))" using P by simp
  have "placed_both op rs ers (es0 @ es1) (snd (k', st')) \<and> fst (k', st') = kf"
  proof (rule pass_invariant[where I = "\<lambda>es s. placed_both op rs ers es (snd s)" and \<kappa> = fst,
        OF l g' P'])
    fix j s s' esa esb k' rest'
    assume I: "placed_both op rs ers esa (snd s)"
      and b: "(case s of (k, st) \<Rightarrow> do {
                 v \<leftarrow> load vs k;
                 st \<leftarrow> place_entry op r v st;
                 Some (k + 1, st) }) = Some s'"
      and r: "do { v \<leftarrow> load vs (fst s); x \<leftarrow> load ws (fst s); Some ([(r, v, x)], fst s + 1) } = Some (esb, k')"
      and t: "es0 @ es1 = esa @ esb @ rest'"
    from r obtain v x where v: "load vs (fst s) = Some v" and e: "esb = [(r, v, x)]" and k: "k' = fst s + 1"
      by (auto simp: bind_eq_Some_conv)
    from b v obtain st1 where pe: "place_entry op r v (snd s) = Some st1" and s': "s' = (fst s + 1, st1)"
      by (cases s) (auto simp: bind_eq_Some_conv)
    have "ess = esa @ [(r, v, x)] @ (rest' @ rest)" using T t e by simp
    from placed_both_step[OF I S this pe] show "fst s' = k' \<and> placed_both op rs ers (esa @ esb) (snd s')"
      using e k s' by simp
  qed
  then show "placed_both op rs ers (es0 @ es1) st'" and "k' = kf" by simp_all
qed

lemma place_on_placed:
  assumes c: "place_on op st0 = Some st"
    and g: "staged_on op = Some es"
    and P: "placed_both op rs ers pre st0"
    and S: "row_starts op True ess rs" "row_starts op False ess ers"
    and T: "ess = pre @ es @ post"
  shows "placed_both op rs ers (pre @ es) st"
proof -
  from g obtain u where g': "gather (read_on op) [0..on_size op - 1] () = Some (es, u)"
    by (auto simp: staged_on_def)
  have "placed_both op rs ers (pre @ es) st \<and> () = u"
  proof (rule pass_invariant[where I = "placed_both op rs ers" and \<kappa> = "\<lambda>_. ()",
        OF c[unfolded place_on_def] g' P])
    fix i s s' es0 es1 k' rest
    assume I: "placed_both op rs ers es0 s"
      and b: "do {
          num \<leftarrow> rd (on_nums op) i;
          own \<leftarrow> owned (outOwnerRange op) (mpiRank op) num;
          if own then do {
            lo \<leftarrow> rd (outOwnerRange op) (mpiRank op);
            let num = num - lo;
            j0 \<leftarrow> rd (on_rowp op) i;
            j1 \<leftarrow> rd (on_rowp op) (i + 1);
            for_loop [j0..j1 - 1]
              (\<lambda>j st. do { v \<leftarrow> rd (on_vars op) j; place_entry op num v st })
              s }
          else Some s } = Some s'"
      and r: "read_on op i () = Some (es1, k')"
      and t: "pre @ es = es0 @ es1 @ rest"
    from r obtain num own where num: "rd (on_nums op) i = Some num"
      and own: "owned (outOwnerRange op) (mpiRank op) num = Some own"
      by (auto simp: read_on_def bind_eq_Some_conv)
    show "() = k' \<and> placed_both op rs ers (es0 @ es1) s'"
    proof (cases own)
      case False
      then have "es1 = []" using r num own by (simp add: read_on_def)
      moreover have "s' = s" using b num own False by simp
      ultimately show ?thesis using I by simp
    next
      case True
      from r num own True obtain lo j0 j1 where lo: "rd (outOwnerRange op) (mpiRank op) = Some lo"
        and j0: "rd (on_rowp op) i = Some j0" and j1: "rd (on_rowp op) (i + 1) = Some j1"
        and gi: "gather (\<lambda>j u. do {
                    v \<leftarrow> rd (on_vars op) j;
                    x \<leftarrow> rd (on_weights op) j;
                    Some ([(num - lo, v, x)], u) }) [j0..j1 - 1] () = Some (es1, k')"
        by (auto simp: read_on_def bind_eq_Some_conv)
      from b num own True lo j0 j1 have
        li: "for_loop [j0..j1 - 1] (\<lambda>j st. do { v \<leftarrow> rd (on_vars op) j; place_entry op (num - lo) v st }) s = Some s'"
        by (simp add: Let_def)
      have "ess = es0 @ es1 @ (rest @ post)" using T t by simp
      from place_row_on[OF li gi I S this] show ?thesis by simp
    qed
  qed
  then show ?thesis by simp
qed

lemma place_in_placed:
  assumes c: "place_in op inb (0, st0) = Some (k, st)"
    and g: "staged_in op inb = Some es"
    and P: "placed_both op rs ers pre st0"
    and S: "row_starts op True ess rs" "row_starts op False ess ers"
    and T: "ess = pre @ es @ post"
  shows "placed_both op rs ers (pre @ es) st"
proof -
  from g obtain kf where g': "gather (read_in op inb) [0..in_size inb - 1] (fst (0::int, st0)) = Some (es, kf)"
    by (auto simp: staged_in_def)
  have P': "placed_both op rs ers pre (snd (0::int, st0))" using P by simp
  have "placed_both op rs ers (pre @ es) (snd (k, st)) \<and> fst (k, st) = kf"
  proof (rule pass_invariant[where I = "\<lambda>es s. placed_both op rs ers es (snd s)" and \<kappa> = fst,
        OF c[unfolded place_in_def] g' P'])
    fix i s s' es0 es1 k' rest
    assume I: "placed_both op rs ers es0 (snd s)"
      and b: "(case s of (k, st) \<Rightarrow> do {
          num \<leftarrow> load (in_nums inb) i;
          own \<leftarrow> owned (outOwnerRange op) (mpiRank op) num;
          if own then do {
            lo \<leftarrow> rd (outOwnerRange op) (mpiRank op);
            let num = num - lo;
            n \<leftarrow> load (in_weights_per_row inb) i;
            for_loop [0..n - 1]
              (\<lambda>j (k, st). do {
                 v \<leftarrow> load (in_vars inb) k;
                 st \<leftarrow> place_entry op num v st;
                 Some (k + 1, st) })
              (k, st) }
          else do {
            n \<leftarrow> load (in_weights_per_row inb) i;
            Some (k + n, st) } }) = Some s'"
      and r: "read_in op inb i (fst s) = Some (es1, k')"
      and t: "pre @ es = es0 @ es1 @ rest"
    obtain k1 st1 where s: "s = (k1, st1)" by (cases s)
    obtain k2 st2 where s': "s' = (k2, st2)" by (cases s')
    from r obtain num own where num: "load (in_nums inb) i = Some num"
      and own: "owned (outOwnerRange op) (mpiRank op) num = Some own"
      by (auto simp: read_in_def bind_eq_Some_conv)
    show "fst s' = k' \<and> placed_both op rs ers (es0 @ es1) (snd s')"
    proof (cases own)
      case False
      from r num own False s obtain n where n: "load (in_weights_per_row inb) i = Some n"
        and e: "es1 = []" and k: "k' = k1 + n"
        by (auto simp: read_in_def bind_eq_Some_conv)
      have "s' = (k1 + n, st1)" using b s num own False n by simp
      then show ?thesis using I s e k by simp
    next
      case True
      from r num own True s obtain lo n where lo: "rd (outOwnerRange op) (mpiRank op) = Some lo"
        and n: "load (in_weights_per_row inb) i = Some n"
        and gi: "gather (\<lambda>j k. do {
                    v \<leftarrow> load (in_vars inb) k;
                    x \<leftarrow> load (in_weights inb) k;
                    Some ([(num - lo, v, x)], k + 1) }) [0..n - 1] k1 = Some (es1, k')"
        by (auto simp: read_in_def bind_eq_Some_conv)
      from b s s' num own True lo n have
        li: "for_loop [0..n - 1]
              (\<lambda>j (k, st). do {
                 v \<leftarrow> load (in_vars inb) k;
                 st \<leftarrow> place_entry op (num - lo) v st;
                 Some (k + 1, st) })
              (k1, st1) = Some (k2, st2)"
        by (simp add: Let_def)
      have I1: "placed_both op rs ers es0 st1" using I s by simp
      have "ess = es0 @ es1 @ (rest @ post)" using T t by simp
      from place_row_in[OF li gi I1 S this] show ?thesis using s' by simp
    qed
  qed
  then show ?thesis by simp
qed

lemma for_loop_downto_invariant:
  assumes "for_loop (rev [a..b]) f s = Some s'" and "a \<le> b + 1" and "P b s"
    and step: "\<And>i s s'. a \<le> i \<Longrightarrow> i \<le> b \<Longrightarrow> P i s \<Longrightarrow> f i s = Some s' \<Longrightarrow> P (i - 1) s'"
  shows "P (a - 1) s'"
  using assms
proof (induction "nat (b + 1 - a)" arbitrary: b s)
  case 0
  then have "b = a - 1" by simp
  then show ?case using 0 by simp
next
  case (Suc m)
  then have ab: "a \<le> b" by linarith
  then have u: "rev [a..b] = b # rev [a..b - 1]" by (simp add: upto_rec2)
  from Suc.prems(1) obtain s1 where s1: "f b s = Some s1" and l: "for_loop (rev [a..b - 1]) f s1 = Some s'"
    unfolding u by (auto simp: bind_eq_Some_conv)
  have p1: "P (b - 1) s1" using Suc.prems(4)[OF ab _ Suc.prems(3) s1] by simp
  show ?case
  proof (rule Suc.hyps(1)[OF _ l _ p1])
    show "m = nat (b - 1 + 1 - a)" using Suc.hyps(2) by linarith
    show "a \<le> b - 1 + 1" using ab by simp
  next
    fix i s s' assume "a \<le> i" "i \<le> b - 1" "P i s" "f i s = Some s'"
    then show "P (i - 1) s'" using Suc.prems(4)[of i s s'] by simp
  qed
qed

lemma shift_back_result:
  assumes r: "shift_back n rp = Some rp'" and n: "0 \<le> n" and l: "int (length rp) = n + 1"
  shows "length rp' = length rp" and "rp' ! 0 = 0"
    and "\<And>q. 0 \<le> q \<Longrightarrow> q < n \<Longrightarrow> rp' ! nat (q + 1) = rp ! nat q"
proof -
  from r obtain rp1 where
    f: "for_loop (rev [1..n]) (\<lambda>i rp. do { a \<leftarrow> rd rp (i - 1); wr rp i a }) rp = Some rp1"
    and w: "wr rp1 0 0 = Some rp'"
    by (auto simp: shift_back_def bind_eq_Some_conv)
  let ?P = "\<lambda>i (a :: int list). length a = length rp
      \<and> (\<forall>q. i \<le> q \<and> q < n \<longrightarrow> a ! nat (q + 1) = rp ! nat q)
      \<and> (\<forall>q. 0 \<le> q \<and> q \<le> i \<longrightarrow> a ! nat q = rp ! nat q)"
  have "?P (1 - 1) rp1"
  proof (rule for_loop_downto_invariant[where P = ?P, OF f])
    show "1 \<le> n + 1" using n by simp
    show "?P n rp" by simp
  next
    fix i a a' assume i: "1 \<le> i" "i \<le> n" and P: "?P i a"
      and b: "do { x \<leftarrow> rd a (i - 1); wr a i x } = Some a'"
    from P have la: "length a = length rp" by simp
    from b i la l have a': "a' = a[nat i := a ! nat (i - 1)]"
      by (auto simp: rd_def wr_def bind_eq_Some_conv split: if_splits)
    have ni: "nat i < length a" using i l la by linarith
    show "?P (i - 1) a'"
    proof (intro conjI allI impI)
      show "length a' = length rp" using a' la by simp
    next
      fix q assume q: "i - 1 \<le> q \<and> q < n"
      show "a' ! nat (q + 1) = rp ! nat q"
      proof (cases "q = i - 1")
        case True
        then have "a' ! nat (q + 1) = a ! nat (i - 1)" using a' ni by simp
        then show ?thesis using P i True by simp
      next
        case False
        then have "nat (q + 1) \<noteq> nat i" using q i by linarith
        then show ?thesis using a' P q False by simp
      qed
    next
      fix q assume q: "0 \<le> q \<and> q \<le> i - 1"
      then have "nat q \<noteq> nat i" using i by linarith
      then show "a' ! nat q = rp ! nat q" using a' P q by simp
    qed
  qed
  then have l1: "length rp1 = length rp" and v: "\<And>q. 0 \<le> q \<Longrightarrow> q < n \<Longrightarrow> rp1 ! nat (q + 1) = rp ! nat q"
    by simp_all
  from w have rp': "rp' = rp1[0 := 0]" by (auto simp: wr_def split: if_splits)
  have pos: "0 < length rp1" using l1 l n by linarith
  show "length rp' = length rp" using rp' l1 by simp
  show "rp' ! 0 = 0" using rp' pos by simp
  show "rp' ! nat (q + 1) = rp ! nat q" if "0 \<le> q" "q < n" for q
  proof -
    have "nat (q + 1) \<noteq> 0" using that by linarith
    then show ?thesis using rp' v[OF that] by simp
  qed
qed

lemma those_Some: "those xs = Some ys \<Longrightarrow> xs = map Some ys"
  by (induction xs arbitrary: ys) (auto split: option.splits)

lemma load_map_Some:
  "load (map Some ys) p = Some v \<longleftrightarrow> 0 \<le> p \<and> p < int (length ys) \<and> ys ! nat p = v"
  by (auto simp: load_def rd_def bind_eq_Some_conv)

lemma uniqueSort_cong: "set xs = set ys \<Longrightarrow> uniqueSort xs = uniqueSort ys"
  unfolding uniqueSort_def
  by (rule sorted_distinct_set_unique) simp_all

lemma set_csr_row:
  assumes "0 \<le> rp ! i" and "rp ! i \<le> rp ! Suc i" and "rp ! Suc i \<le> int (length xs)"
  shows "set (csr_row rp xs i) = {xs ! nat p | p. rp ! i \<le> p \<and> p < rp ! Suc i}"
proof -
  let ?a = "nat (rp ! i)" and ?m = "nat (rp ! Suc i - rp ! i)"
  have len: "length (csr_row rp xs i) = ?m" using assms by (simp add: csr_row_def)
  have nth: "csr_row rp xs i ! t = xs ! (?a + t)" if "t < ?m" for t
    using that assms by (simp add: csr_row_def)
  show ?thesis
  proof (intro set_eqI iffI)
    fix c assume "c \<in> set (csr_row rp xs i)"
    then obtain t where t: "t < ?m" and c: "c = xs ! (?a + t)"
      using len nth by (auto simp: in_set_conv_nth)
    have "c = xs ! nat (rp ! i + int t)" using c assms(1) by (simp add: nat_add_distrib)
    moreover have "rp ! i \<le> rp ! i + int t \<and> rp ! i + int t < rp ! Suc i" using t by linarith
    ultimately show "c \<in> {xs ! nat p | p. rp ! i \<le> p \<and> p < rp ! Suc i}" by blast
  next
    fix c assume "c \<in> {xs ! nat p | p. rp ! i \<le> p \<and> p < rp ! Suc i}"
    then obtain p where p: "rp ! i \<le> p" "p < rp ! Suc i" and c: "c = xs ! nat p" by blast
    let ?t = "nat (p - rp ! i)"
    have t: "?t < ?m" using p by linarith
    have "?a + ?t = nat p" using p assms(1) by linarith
    then have "csr_row rp xs i ! ?t = c" using nth[OF t] c by simp
    then show "c \<in> set (csr_row rp xs i)" using t len by (metis nth_mem)
  qed
qed

lemma placed_rows:
  assumes P: "placed op loc rs ess rp3 cs3"
    and S: "row_starts op loc ess rs"
    and n: "0 \<le> n" and l: "int (length rs) = n + 1"
    and sb: "shift_back n rp3 = Some rp4"
    and th: "those cs3 = Some cs4"
    and su: "SortAndUniquifyCSR n rp4 cs4 = Some (rp, cs)"
  shows "i < nat n \<Longrightarrow> csr_row rp cs i = uniqueSort (columns_of op loc ess (int i))"
    and "\<And>r v x. (r, v, x) \<in> set ess \<Longrightarrow> local_in op v = loc \<Longrightarrow> 0 \<le> r \<and> r < n"
proof -
  let ?n = "int (length rs)"
  from P have len: "length rp3 = length rs" and lcs: "int (length cs3) = last rs"
    and cur: "\<And>q. 0 \<le> q \<Longrightarrow> q + 1 < ?n \<Longrightarrow> rp3 ! nat q = rs ! nat q + fan op loc ess q"
    and cells: "\<And>q p. 0 \<le> q \<Longrightarrow> q + 1 < ?n \<Longrightarrow> rs ! nat q \<le> p \<Longrightarrow> p < rp3 ! nat q \<Longrightarrow>
          \<exists>v. load cs3 p = Some v \<and> v \<in> set (columns_of op loc ess q)"
    and ents: "\<And>r v x. (r, v, x) \<in> set ess \<Longrightarrow> local_in op v = loc \<Longrightarrow>
          0 \<le> r \<and> r + 1 < ?n \<and> (\<exists>p. rs ! nat r \<le> p \<and> p < rp3 ! nat r \<and> load cs3 p = Some v)"
    unfolding placed_def by blast+
  from S have ne: "rs \<noteq> []" and z: "rs ! 0 = 0"
    and nxt: "\<And>q. 0 \<le> q \<Longrightarrow> q + 1 < ?n \<Longrightarrow> rs ! nat (q + 1) = rs ! nat q + fan op loc ess q"
    by (auto simp: row_starts_def)
  show "0 \<le> r \<and> r < n" if "(r, v, x) \<in> set ess" "local_in op v = loc" for r v x
    using ents[OF that] l by simp
  have endq: "rp3 ! nat q = rs ! nat (q + 1)" if "0 \<le> q" "q < n" for q
    using cur[of q] nxt[of q] that l by simp
  have l3: "int (length rp3) = n + 1" using len l by simp
  note sh = shift_back_result[OF sb n l3]
  have "rp4 = rs"
  proof (rule nth_equalityI)
    show "length rp4 = length rs" using sh(1) len by simp
  next
    fix t assume t: "t < length rp4"
    show "rp4 ! t = rs ! t"
    proof (cases t)
      case 0
      then show ?thesis using sh(2) z by simp
    next
      case (Suc m)
      have m: "0 \<le> int m" "int m < n" using t Suc sh(1) l3 by simp_all
      have "nat (int m + 1) = t" using Suc by simp
      then show ?thesis using sh(3)[OF m] endq[OF m] by simp
    qed
  qed
  note su' = su[unfolded this]
  have c3: "cs3 = map Some cs4" by (rule those_Some[OF th])
  have l4: "int (length cs4) = last rs" using lcs c3 by simp
  have "length rs - 1 = nat n" using l n by linarith
  then have lastn: "last rs = rs ! nat n" using last_conv_nth[OF ne] by simp
  show "csr_row rp cs i = uniqueSort (columns_of op loc ess (int i))" if i: "i < nat n"
  proof -
    have qi: "0 \<le> int i" "int i + 1 < ?n" "int i < n" using i l by simp_all
    have si: "nat (int i + 1) = Suc i" by simp
    have b0: "0 \<le> rs ! i" using row_starts_mono[OF S, of 0 "int i"] qi z by simp
    have b1: "rs ! i \<le> rs ! Suc i" using row_starts_mono[OF S, of "int i" "int i + 1"] qi si by simp
    have b2: "rs ! Suc i \<le> int (length cs4)"
      using row_starts_mono[OF S, of "int i + 1" n] qi l l4 lastn si by simp
    have e: "rp3 ! i = rs ! Suc i" using endq[OF qi(1,3)] si by simp
    have "set (csr_row rs cs4 i) = set (columns_of op loc ess (int i))"
      unfolding set_csr_row[OF b0 b1 b2]
    proof (intro set_eqI iffI)
      fix c assume "c \<in> {cs4 ! nat p | p. rs ! i \<le> p \<and> p < rs ! Suc i}"
      then obtain p where p: "rs ! i \<le> p" "p < rs ! Suc i" and c: "c = cs4 ! nat p" by blast
      from cells[OF qi(1,2), of p] p e obtain v where "load cs3 p = Some v"
        and v: "v \<in> set (columns_of op loc ess (int i))" by auto
      then have "cs4 ! nat p = v" unfolding c3 load_map_Some by simp
      then show "c \<in> set (columns_of op loc ess (int i))" using c v by simp
    next
      fix c assume "c \<in> set (columns_of op loc ess (int i))"
      then obtain x where m: "(int i, c, x) \<in> set ess" and lc: "local_in op c = loc"
        by (auto simp: columns_of_def)
      from ents[OF m lc] obtain p where p: "rs ! nat (int i) \<le> p" "p < rp3 ! nat (int i)"
        and ld: "load cs3 p = Some c" by blast
      from ld have "cs4 ! nat p = c" unfolding c3 load_map_Some by simp
      then show "c \<in> {cs4 ! nat p | p. rs ! i \<le> p \<and> p < rs ! Suc i}" using p e by auto
    qed
    then have "uniqueSort (csr_row rs cs4 i) = uniqueSort (columns_of op loc ess (int i))"
      by (rule uniqueSort_cong)
    then show ?thesis
      using SortAndUniquifyCSR_wf(2)[OF su' i] by simp
  qed
qed

lemma counted_row_starts:
  assumes c: "counted op loc (replicate (nat (n + 1)) 0) ess cnt"
    and r: "running_sums n cnt = Some rs"
  shows "row_starts op loc ess rs" and "0 \<le> n" and "int (length rs) = n + 1"
proof -
  from c have l: "length cnt = nat (n + 1)"
    and v: "\<And>q. 0 \<le> q \<Longrightarrow> q < int (nat (n + 1)) \<Longrightarrow> cnt ! nat q = replicate (nat (n + 1)) 0 ! nat q + fan op loc ess (q - 1)"
    by (auto simp: counted_def)
  from r have "cnt \<noteq> []" by (auto simp: running_sums_def wr_def bind_eq_Some_conv split: if_splits)
  then show n: "0 \<le> n" using l by (cases "0 \<le> n") auto
  then have lc: "int (length cnt) = n + 1" using l by simp
  note rr = running_sums_result[OF r n lc]
  show "int (length rs) = n + 1" using rr(1) lc by simp
  show "row_starts op loc ess rs"
    unfolding row_starts_def
  proof (intro conjI allI impI)
    show "rs \<noteq> []" using rr(1) \<open>cnt \<noteq> []\<close> by auto
    show "rs ! 0 = 0" by (rule rr(2))
  next
    fix q assume q: "0 \<le> q \<and> q + 1 < int (length rs)"
    then have q': "0 \<le> q" "q < n" using rr(1) lc by simp_all
    have "nat (q + 1) < nat (n + 1)" using q' by linarith
    then have "cnt ! nat (q + 1) = fan op loc ess q" using v[of "q + 1"] q' by simp
    then show "rs ! nat (q + 1) = rs ! nat q + fan op loc ess q" using rr(3)[OF q'] by simp
  qed
qed

lemma new_zeroed_Some: "new_zeroed n = Some z \<Longrightarrow> z = replicate (nat n) 0"
  by (auto simp: new_zeroed_def split: if_splits)

lemma new_array_Some: "new_array n = Some a \<Longrightarrow> 0 \<le> n \<and> int (length a) = n"
  by (auto simp: new_array_def split: if_splits)

lemma finalize_pattern_columns:
  fixes op :: "'a BVecInterp"
  assumes p: "finalize_pattern op inb = Some (rp, cs, erp, ecs, err)"
    and eon: "staged_on op = Some eon" and ein: "staged_in op inb = Some ein"
  shows "i < nat (N op) \<Longrightarrow> csr_row rp cs i = uniqueSort (columns_of op True (eon @ ein) (int i))"
    and "i < nat (N op) \<Longrightarrow> csr_row erp ecs i = uniqueSort (columns_of op False (eon @ ein) (int i))"
    and "\<And>r v x. (r, v, x) \<in> set (eon @ ein) \<Longrightarrow> 0 \<le> r \<and> r < N op"
proof -
  let ?n = "N op"
  from p obtain z ez c1 e1 err1 k1 c2 e2 rs ers m cs0 em ecs0 st1 k2 rp3 cs3 erp3 ecs3
      rp4 erp4 cs4 ecs4 where
    z: "new_zeroed (?n + 1) = Some z" and ez: "new_zeroed (?n + 1) = Some ez"
    and con: "count_on op (z, ez, []) = Some (c1, e1, err1)"
    and cin: "count_in op inb (0, c1, e1, err1) = Some (k1, c2, e2, err)"
    and r1: "running_sums ?n c2 = Some rs" and r2: "running_sums ?n e2 = Some ers"
    and m: "rd rs ?n = Some m" and cs0: "new_array m = Some cs0"
    and em: "rd ers ?n = Some em" and ecs0: "new_array em = Some ecs0"
    and pon: "place_on op (rs, cs0, ers, ecs0) = Some st1"
    and pin: "place_in op inb (0, st1) = Some (k2, rp3, cs3, erp3, ecs3)"
    and s1: "shift_back ?n rp3 = Some rp4" and s2: "shift_back ?n erp3 = Some erp4"
    and t1: "those cs3 = Some cs4" and t2: "those ecs3 = Some ecs4"
    and u1: "SortAndUniquifyCSR ?n rp4 cs4 = Some (rp, cs)"
    and u2: "SortAndUniquifyCSR ?n erp4 ecs4 = Some (erp, ecs)"
    unfolding finalize_pattern_def
    by (auto simp: bind_eq_Some_conv split: prod.splits)
  let ?ess = "eon @ ein"
  note z' = new_zeroed_Some[OF z] new_zeroed_Some[OF ez]
  note a = count_on_counted[OF con eon]
  have ct: "counted op True (replicate (nat (?n + 1)) 0) ?ess c2"
    and ce: "counted op False (replicate (nat (?n + 1)) 0) ?ess e2"
    using count_in_counted[OF cin ein a] z' by simp_all
  note S = counted_row_starts[OF ct r1]
  note SE = counted_row_starts[OF ce r2]
  have ne: "rs \<noteq> []" "ers \<noteq> []" using S(1) SE(1) by (auto simp: row_starts_def)
  have lr: "length rs - 1 = nat ?n" "length ers - 1 = nat ?n" using S(2,3) SE(3) by linarith+
  have "last rs = m" using m lr(1) last_conv_nth[OF ne(1)] by (auto simp: rd_def split: if_splits)
  then have lm: "int (length cs0) = last rs" using new_array_Some[OF cs0] by simp
  have P0: "placed op True rs [] rs cs0" by (rule placed_start[OF ne(1) lm])
  have "last ers = em" using em lr(2) last_conv_nth[OF ne(2)] by (auto simp: rd_def split: if_splits)
  then have lem: "int (length ecs0) = last ers" using new_array_Some[OF ecs0] by simp
  have E0: "placed op False ers [] ers ecs0" by (rule placed_start[OF ne(2) lem])
  have B0: "placed_both op rs ers [] (rs, cs0, ers, ecs0)" using P0 E0 by (simp add: placed_both_def)
  have B1: "placed_both op rs ers ([] @ eon) st1"
    by (rule place_on_placed[OF pon eon B0 S(1) SE(1)]) simp
  have "placed_both op rs ers (eon @ ein) (rp3, cs3, erp3, ecs3)"
    by (rule place_in_placed[OF pin ein _ S(1) SE(1), where post = "[]"]) (use B1 in simp_all)
  then have P: "placed op True rs ?ess rp3 cs3" and E: "placed op False ers ?ess erp3 ecs3"
    by (simp_all add: placed_both_def)
  note A = placed_rows[OF P S(1) S(2) S(3) s1 t1 u1]
  note B = placed_rows[OF E SE(1) SE(2) SE(3) s2 t2 u2]
  show "csr_row rp cs i = uniqueSort (columns_of op True ?ess (int i))" if "i < nat ?n"
    by (rule A(1)[OF that])
  show "csr_row erp ecs i = uniqueSort (columns_of op False ?ess (int i))" if "i < nat ?n"
    by (rule B(1)[OF that])
  show "0 \<le> r \<and> r < ?n" if "(r, v, x) \<in> set ?ess" for r v x
    using A(2)[OF that] B(2)[OF that] by (cases "local_in op v") simp_all
qed

lemma weight_of_snoc:
  "weight_of (es @ [(r, v, x)]) q c = (if r = q \<and> v = c then weight_of es q c + x else weight_of es q c)"
  by (simp add: weight_of_def)

lemma weight_of_Nil: "weight_of [] q c = 0"
  by (simp add: weight_of_def)

lemma summed_start:
  assumes "wf_csr n rp cs"
  shows "summed rp cs [] (replicate (length cs) 0)"
  unfolding summed_def
proof (intro conjI allI impI)
  show "length (replicate (length cs) (0::'a)) = length cs" by simp
next
  fix q p assume a: "0 \<le> q \<and> q + 1 < int (length rp) \<and> rp ! nat q \<le> p \<and> p < rp ! nat (q + 1)"
  have l: "int (length rp) = n + 1" using assms by (simp add: wf_csr_def)
  have "nat (q + 1) \<le> nat n" using a l by linarith
  from wf_csr_bounds(2)[OF assms this] wf_csr_bounds(1)[OF assms, of "nat q"] a l
  have "nat p < length cs" by linarith
  then show "replicate (length cs) (0::'a) ! nat p = weight_of [] q (cs ! nat p)"
    by (simp add: weight_of_Nil)
qed

lemma summed_other:
  assumes W: "summed rp cs es0 ws"
    and o: "\<And>p. 0 \<le> r \<Longrightarrow> r + 1 < int (length rp) \<Longrightarrow> rp ! nat r \<le> p \<Longrightarrow> p < rp ! nat (r + 1)
               \<Longrightarrow> cs ! nat p \<noteq> v"
  shows "summed rp cs (es0 @ [(r, v, x)]) ws"
  using W o unfolding summed_def weight_of_snoc by auto

lemma csr_row_nth:
  assumes "wf_csr n rp cs" and "i < nat n" and "rp ! i \<le> p" and "p < rp ! Suc i"
  shows "nat (p - rp ! i) < length (csr_row rp cs i)"
    and "csr_row rp cs i ! nat (p - rp ! i) = cs ! nat p"
proof -
  note b = wf_csr_bounds(1,2)[OF assms(1), of i] wf_csr_bounds(2)[OF assms(1), of "Suc i"]
  have l: "length (csr_row rp cs i) = nat (rp ! Suc i - rp ! i)"
    using b assms(2) by (simp add: csr_row_def)
  show t: "nat (p - rp ! i) < length (csr_row rp cs i)" using l assms(3,4) by linarith
  have s: "nat (rp ! i) + nat (p - rp ! i) = nat p" using b assms(2,3) by linarith
  have nl: "nat (rp ! i) \<le> length cs" using b assms(2) by linarith
  have "csr_row rp cs i ! nat (p - rp ! i) = drop (nat (rp ! i)) cs ! nat (p - rp ! i)"
    using t l unfolding csr_row_def by (intro nth_take) simp
  also have "\<dots> = cs ! (nat (rp ! i) + nat (p - rp ! i))" using nl by (rule nth_drop)
  finally show "csr_row rp cs i ! nat (p - rp ! i) = cs ! nat p" using s by simp
qed

lemma summed_one:
  fixes ws :: "'a::{zero,plus} list"
  assumes W: "summed rp cs es0 ws"
    and wf: "wf_csr n rp cs"
    and dist: "\<And>i. i < nat n \<Longrightarrow> distinct (csr_row rp cs i)"
    and e: "rd rp (r + 1) = Some e" and b: "rd rp r = Some b0"
    and res: "(case bsearch v cs b0 (e - b0) of
                 Some item \<Rightarrow> bump ws item x
               | None \<Rightarrow> Some ws) = Some ws'"
  shows "summed rp cs (es0 @ [(r, v, x)]) ws'"
proof -
  have l: "int (length rp) = n + 1" and srt: "sorted rp" using wf by (simp_all add: wf_csr_def)
  from b e have r: "0 \<le> r" "r < n" and b0: "b0 = rp ! nat r" and e': "e = rp ! nat (r + 1)"
    using l by (auto simp: rd_def split: if_splits)
  let ?i = "nat r"
  have i: "?i < nat n" using r by linarith
  have si: "nat (r + 1) = Suc ?i" using r by linarith
  let ?row = "csr_row rp cs ?i"
  have bs: "bsearch v cs b0 (e - b0) = bsearch_from v ?row b0"
    unfolding bsearch_def csr_row_def b0 e' si by simp
  from W have lw: "length ws = length cs"
    and val: "\<And>q p. 0 \<le> q \<Longrightarrow> q + 1 < int (length rp) \<Longrightarrow> rp ! nat q \<le> p \<Longrightarrow> p < rp ! nat (q + 1)
          \<Longrightarrow> ws ! nat p = weight_of es0 q (cs ! nat p)"
    unfolding summed_def by blast+
  show ?thesis
  proof (cases "v \<in> set ?row")
    case False
    then have "ws' = ws" using res bs bsearch_from_None[OF False] by simp
    moreover have "summed rp cs (es0 @ [(r, v, x)]) ws"
    proof (rule summed_other[OF W])
      fix p assume p: "rp ! nat r \<le> p" "p < rp ! nat (r + 1)"
      from csr_row_nth[OF wf i p(1) p(2)[unfolded si]] have "cs ! nat p \<in> set ?row"
        by (metis nth_mem)
      then show "cs ! nat p \<noteq> v" using False by auto
    qed
    ultimately show ?thesis by simp
  next
    case True
    let ?t = "first_index v ?row"
    let ?item = "b0 + int ?t"
    note fi = first_index_less[OF True]
    have rl: "length ?row = nat (rp ! Suc ?i - rp ! ?i)"
      using wf_csr_bounds(1,2)[OF wf, of ?i] wf_csr_bounds(2)[OF wf, of "Suc ?i"] i
      by (simp add: csr_row_def)
    have it: "rp ! ?i \<le> ?item" "?item < rp ! Suc ?i" using fi rl b0 by linarith+
    have itv: "cs ! nat ?item = v"
      using csr_row_nth(2)[OF wf i it] fi b0 by simp
    from res bs bsearch_from_eq[OF True, of b0] have bu: "bump ws ?item x = Some ws'" by simp
    have i0: "0 \<le> ?item" using bump_Some(1)[OF bu] .
    have nth': "ws' ! nat p = (if p = ?item then ws ! nat ?item + x else ws ! nat p)" if "0 \<le> p" for p
      using bump_nth[OF bu that] .
    show ?thesis
      unfolding summed_def
    proof (intro conjI allI impI)
      show "length ws' = length cs" using bump_Some(3)[OF bu] lw by simp
    next
      fix q p assume a: "0 \<le> q \<and> q + 1 < int (length rp) \<and> rp ! nat q \<le> p \<and> p < rp ! nat (q + 1)"
      then have q: "0 \<le> q" "q + 1 < int (length rp)" and p: "rp ! nat q \<le> p" "p < rp ! nat (q + 1)"
        by simp_all
      have qn: "nat q < nat n" using q l by linarith
      have sq: "nat (q + 1) = Suc (nat q)" using q by linarith
      have p0: "0 \<le> p" using wf_csr_bounds(1)[OF wf, of "nat q"] qn p by simp
      note old = val[OF q p]
      show "ws' ! nat p = weight_of (es0 @ [(r, v, x)]) q (cs ! nat p)"
      proof (cases "p = ?item")
        case True
        have "q = r"
        proof (rule ccontr)
          assume ne: "q \<noteq> r"
          consider "q < r" | "r < q" using ne by linarith
          then show False
          proof cases
            case 1
            have "rp ! Suc (nat q) \<le> rp ! ?i" using srt 1 q r l by (intro sorted_nth_mono) auto
            then show False using p(2) it(1) True sq by simp
          next
            case 2
            have "rp ! Suc ?i \<le> rp ! nat q" using srt 2 q r l by (intro sorted_nth_mono) auto
            then show False using p(1) it(2) True by simp
          qed
        qed
        then show ?thesis using True nth'[OF p0] old itv by (simp add: weight_of_snoc)
      next
        case False
        have "\<not> (r = q \<and> v = cs ! nat p)"
        proof
          assume c: "r = q \<and> v = cs ! nat p"
          then have p': "rp ! ?i \<le> p" "p < rp ! Suc ?i" using p sq by simp_all
          note n1 = csr_row_nth[OF wf i p']
          have "?row ! nat (p - rp ! ?i) = ?row ! ?t" using n1(2) c fi by simp
          then have "nat (p - rp ! ?i) = ?t"
            using nth_eq_iff_index_eq[OF dist[OF i] n1(1) conjunct1[OF fi]] by simp
          then have "p = ?item" using p' b0 by linarith
          then show False using False by simp
        qed
        then show ?thesis using False nth'[OF p0] old by (auto simp: weight_of_snoc)
      qed
    qed
  qed
qed

lemma summed_both_step:
  fixes st :: "'a::{zero,plus} list \<times> 'a list"
  assumes W: "summed_both rp cs erp ecs es0 st"
    and sp: "split_pattern op rp cs erp ecs"
    and we: "weight_entry op rp cs erp ecs r v x st = Some st'"
  shows "summed_both rp cs erp ecs (es0 @ [(r, v, x)]) st'"
proof -
  obtain ws ews where s: "st = (ws, ews)" by (cases st)
  obtain ws' ews' where s': "st' = (ws', ews')" by (cases st')
  from W s have A: "summed rp cs es0 ws" and B: "summed erp ecs es0 ews"
    by (simp_all add: summed_both_def)
  from sp have wf: "wf_csr (N op) rp cs" and ewf: "wf_csr (N op) erp ecs"
    and d: "\<And>i. i < nat (N op) \<Longrightarrow> distinct (csr_row rp cs i)"
    and ed: "\<And>i. i < nat (N op) \<Longrightarrow> distinct (csr_row erp ecs i)"
    and lc: "\<And>i c. i < nat (N op) \<Longrightarrow> c \<in> set (csr_row rp cs i) \<Longrightarrow> local_in op c"
    and elc: "\<And>i c. i < nat (N op) \<Longrightarrow> c \<in> set (csr_row erp ecs i) \<Longrightarrow> \<not> local_in op c"
    unfolding split_pattern_def by blast+
  have l: "int (length rp) = N op + 1" "int (length erp) = N op + 1"
    using wf ewf by (simp_all add: wf_csr_def)
  from we[unfolded s] obtain loc where o: "owned (inOwnerRange op) (mpiRank op) v = Some loc"
    by (auto simp: weight_entry_def bind_eq_Some_conv)
  have lv: "local_in op v = loc" using o by (simp add: local_in_def)
  have "summed rp cs (es0 @ [(r, v, x)]) ws' \<and> summed erp ecs (es0 @ [(r, v, x)]) ews'"
  proof (cases loc)
    case True
    from we s s' o True obtain e b0 where e: "rd rp (r + 1) = Some e" and b: "rd rp r = Some b0"
      and res: "(case bsearch v cs b0 (e - b0) of
                   Some item \<Rightarrow> bump ws item x
                 | None \<Rightarrow> Some ws) = Some ws'"
      and same: "ews' = ews"
      by (auto simp: weight_entry_def bind_eq_Some_conv split: option.splits)
    have "summed erp ecs (es0 @ [(r, v, x)]) ews"
    proof (rule summed_other[OF B])
      fix p assume r0: "0 \<le> r" and r1: "r + 1 < int (length erp)"
        and p: "erp ! nat r \<le> p" "p < erp ! nat (r + 1)"
      have i: "nat r < nat (N op)" using r0 r1 l by linarith
      have si: "nat (r + 1) = Suc (nat r)" using r0 by linarith
      from csr_row_nth[OF ewf i p(1) p(2)[unfolded si]]
      have "ecs ! nat p \<in> set (csr_row erp ecs (nat r))" by (metis nth_mem)
      from elc[OF i this] show "ecs ! nat p \<noteq> v" using lv True by auto
    qed
    then show ?thesis using summed_one[OF A wf d e b res] same by simp
  next
    case False
    from we s s' o False obtain e b0 where e: "rd erp (r + 1) = Some e" and b: "rd erp r = Some b0"
      and res: "(case bsearch v ecs b0 (e - b0) of
                   Some item \<Rightarrow> bump ews item x
                 | None \<Rightarrow> Some ews) = Some ews'"
      and same: "ws' = ws"
      by (auto simp: weight_entry_def bind_eq_Some_conv split: option.splits)
    have "summed rp cs (es0 @ [(r, v, x)]) ws"
    proof (rule summed_other[OF A])
      fix p assume r0: "0 \<le> r" and r1: "r + 1 < int (length rp)"
        and p: "rp ! nat r \<le> p" "p < rp ! nat (r + 1)"
      have i: "nat r < nat (N op)" using r0 r1 l by linarith
      have si: "nat (r + 1) = Suc (nat r)" using r0 by linarith
      from csr_row_nth[OF wf i p(1) p(2)[unfolded si]]
      have "cs ! nat p \<in> set (csr_row rp cs (nat r))" by (metis nth_mem)
      from lc[OF i this] show "cs ! nat p \<noteq> v" using lv False by auto
    qed
    then show ?thesis using summed_one[OF B ewf ed e b res] same by simp
  qed
  then show ?thesis unfolding s' by (simp add: summed_both_def)
qed

lemma weight_row_on:
  fixes st :: "'a::{zero,plus} list \<times> 'a list"
  assumes l: "for_loop js (\<lambda>j st. do {
                 v \<leftarrow> rd vs j;
                 x \<leftarrow> rd xs j;
                 weight_entry op rp cs erp ecs r v x st }) st = Some st'"
    and g: "gather (\<lambda>j u. do { v \<leftarrow> rd vs j; x \<leftarrow> rd xs j; Some ([(r, v, x)], u) }) js u = Some (es1, u')"
    and W: "summed_both rp cs erp ecs es0 st"
    and sp: "split_pattern op rp cs erp ecs"
  shows "summed_both rp cs erp ecs (es0 @ es1) st'"
proof -
  have "summed_both rp cs erp ecs (es0 @ es1) st' \<and> u = u'"
  proof (rule pass_invariant[where I = "summed_both rp cs erp ecs" and \<kappa> = "\<lambda>_. u", OF l g W])
    fix j s s' esa esb k' rest'
    assume I: "summed_both rp cs erp ecs esa s"
      and b: "do { v \<leftarrow> rd vs j; x \<leftarrow> rd xs j; weight_entry op rp cs erp ecs r v x s } = Some s'"
      and r: "do { v \<leftarrow> rd vs j; x \<leftarrow> rd xs j; Some ([(r, v, x)], u) } = Some (esb, k')"
    from r obtain v x where v: "rd vs j = Some v" and x: "rd xs j = Some x"
      and e: "esb = [(r, v, x)]" and k: "k' = u"
      by (auto simp: bind_eq_Some_conv)
    from b v x have pe: "weight_entry op rp cs erp ecs r v x s = Some s'" by simp
    from summed_both_step[OF I sp pe] show "u = k' \<and> summed_both rp cs erp ecs (esa @ esb) s'"
      using e k by simp
  qed
  then show ?thesis by simp
qed

lemma weight_row_in:
  fixes st :: "'a::{zero,plus} list \<times> 'a list"
  assumes l: "for_loop js (\<lambda>j (k, st). do {
                 v \<leftarrow> load vs k;
                 x \<leftarrow> load xs k;
                 st \<leftarrow> weight_entry op rp cs erp ecs r v x st;
                 Some (k + 1, st) }) (k, st) = Some (k', st')"
    and g: "gather (\<lambda>j k. do { v \<leftarrow> load vs k; x \<leftarrow> load xs k; Some ([(r, v, x)], k + 1) }) js k
              = Some (es1, kf)"
    and W: "summed_both rp cs erp ecs es0 st"
    and sp: "split_pattern op rp cs erp ecs"
  shows "summed_both rp cs erp ecs (es0 @ es1) st'" and "k' = kf"
proof -
  have g': "gather (\<lambda>j k. do { v \<leftarrow> load vs k; x \<leftarrow> load xs k; Some ([(r, v, x)], k + 1) }) js
              (fst (k, st)) = Some (es1, kf)"
    using g by simp
  have W': "summed_both rp cs erp ecs es0 (snd (k, st))" using W by simp
  have "summed_both rp cs erp ecs (es0 @ es1) (snd (k', st')) \<and> fst (k', st') = kf"
  proof (rule pass_invariant[where I = "\<lambda>es s. summed_both rp cs erp ecs es (snd s)" and \<kappa> = fst,
        OF l g' W'])
    fix j s s' esa esb k' rest'
    assume I: "summed_both rp cs erp ecs esa (snd s)"
      and b: "(case s of (k, st) \<Rightarrow> do {
                 v \<leftarrow> load vs k;
                 x \<leftarrow> load xs k;
                 st \<leftarrow> weight_entry op rp cs erp ecs r v x st;
                 Some (k + 1, st) }) = Some s'"
      and r: "do { v \<leftarrow> load vs (fst s); x \<leftarrow> load xs (fst s); Some ([(r, v, x)], fst s + 1) } = Some (esb, k')"
    from r obtain v x where v: "load vs (fst s) = Some v" and x: "load xs (fst s) = Some x"
      and e: "esb = [(r, v, x)]" and k: "k' = fst s + 1"
      by (auto simp: bind_eq_Some_conv)
    from b v x obtain st1 where pe: "weight_entry op rp cs erp ecs r v x (snd s) = Some st1"
      and s': "s' = (fst s + 1, st1)"
      by (cases s) (auto simp: bind_eq_Some_conv)
    from summed_both_step[OF I sp pe] show "fst s' = k' \<and> summed_both rp cs erp ecs (esa @ esb) (snd s')"
      using e k s' by simp
  qed
  then show "summed_both rp cs erp ecs (es0 @ es1) st'" and "k' = kf" by simp_all
qed

lemma weights_on_summed:
  fixes st :: "'a::{zero,plus} list \<times> 'a list"
  assumes c: "weights_on op rp cs erp ecs st0 = Some st"
    and g: "staged_on op = Some es"
    and W: "summed_both rp cs erp ecs pre st0"
    and sp: "split_pattern op rp cs erp ecs"
  shows "summed_both rp cs erp ecs (pre @ es) st"
proof -
  from g obtain u where g': "gather (read_on op) [0..on_size op - 1] () = Some (es, u)"
    by (auto simp: staged_on_def)
  have "summed_both rp cs erp ecs (pre @ es) st \<and> () = u"
  proof (rule pass_invariant[where I = "summed_both rp cs erp ecs" and \<kappa> = "\<lambda>_. ()",
        OF c[unfolded weights_on_def] g' W])
    fix i s s' es0 es1 k' rest
    assume I: "summed_both rp cs erp ecs es0 s"
      and b: "do {
          num \<leftarrow> rd (on_nums op) i;
          own \<leftarrow> owned (outOwnerRange op) (mpiRank op) num;
          if own then do {
            lo \<leftarrow> rd (outOwnerRange op) (mpiRank op);
            let num = num - lo;
            j0 \<leftarrow> rd (on_rowp op) i;
            j1 \<leftarrow> rd (on_rowp op) (i + 1);
            for_loop [j0..j1 - 1]
              (\<lambda>j st. do {
                 v \<leftarrow> rd (on_vars op) j;
                 x \<leftarrow> rd (on_weights op) j;
                 weight_entry op rp cs erp ecs num v x st })
              s }
          else Some s } = Some s'"
      and r: "read_on op i () = Some (es1, k')"
    from r obtain num own where num: "rd (on_nums op) i = Some num"
      and own: "owned (outOwnerRange op) (mpiRank op) num = Some own"
      by (auto simp: read_on_def bind_eq_Some_conv)
    show "() = k' \<and> summed_both rp cs erp ecs (es0 @ es1) s'"
    proof (cases own)
      case False
      then have "es1 = []" using r num own by (simp add: read_on_def)
      moreover have "s' = s" using b num own False by simp
      ultimately show ?thesis using I by simp
    next
      case True
      from r num own True obtain lo j0 j1 where lo: "rd (outOwnerRange op) (mpiRank op) = Some lo"
        and j0: "rd (on_rowp op) i = Some j0" and j1: "rd (on_rowp op) (i + 1) = Some j1"
        and gi: "gather (\<lambda>j u. do {
                    v \<leftarrow> rd (on_vars op) j;
                    x \<leftarrow> rd (on_weights op) j;
                    Some ([(num - lo, v, x)], u) }) [j0..j1 - 1] () = Some (es1, k')"
        by (auto simp: read_on_def bind_eq_Some_conv)
      from b num own True lo j0 j1 have
        li: "for_loop [j0..j1 - 1] (\<lambda>j st. do {
                 v \<leftarrow> rd (on_vars op) j;
                 x \<leftarrow> rd (on_weights op) j;
                 weight_entry op rp cs erp ecs (num - lo) v x st }) s = Some s'"
        by (simp add: Let_def)
      from weight_row_on[OF li gi I sp] show ?thesis by simp
    qed
  qed
  then show ?thesis by simp
qed

lemma weights_in_summed:
  fixes st :: "'a::{zero,plus} list \<times> 'a list"
  assumes c: "weights_in op inb rp cs erp ecs (0, st0) = Some (k, st)"
    and g: "staged_in op inb = Some es"
    and W: "summed_both rp cs erp ecs pre st0"
    and sp: "split_pattern op rp cs erp ecs"
  shows "summed_both rp cs erp ecs (pre @ es) st"
proof -
  from g obtain kf where g': "gather (read_in op inb) [0..in_size inb - 1] (fst (0::int, st0)) = Some (es, kf)"
    by (auto simp: staged_in_def)
  have W': "summed_both rp cs erp ecs pre (snd (0::int, st0))" using W by simp
  have "summed_both rp cs erp ecs (pre @ es) (snd (k, st)) \<and> fst (k, st) = kf"
  proof (rule pass_invariant[where I = "\<lambda>es s. summed_both rp cs erp ecs es (snd s)" and \<kappa> = fst,
        OF c[unfolded weights_in_def] g' W'])
    fix i s s' es0 es1 k' rest
    assume I: "summed_both rp cs erp ecs es0 (snd s)"
      and b: "(case s of (k, st) \<Rightarrow> do {
          num \<leftarrow> load (in_nums inb) i;
          own \<leftarrow> owned (outOwnerRange op) (mpiRank op) num;
          if own then do {
            lo \<leftarrow> rd (outOwnerRange op) (mpiRank op);
            let num = num - lo;
            n \<leftarrow> load (in_weights_per_row inb) i;
            for_loop [0..n - 1]
              (\<lambda>j (k, st). do {
                 v \<leftarrow> load (in_vars inb) k;
                 x \<leftarrow> load (in_weights inb) k;
                 st \<leftarrow> weight_entry op rp cs erp ecs num v x st;
                 Some (k + 1, st) })
              (k, st) }
          else do {
            n \<leftarrow> load (in_weights_per_row inb) i;
            Some (k + n, st) } }) = Some s'"
      and r: "read_in op inb i (fst s) = Some (es1, k')"
    obtain k1 st1 where s: "s = (k1, st1)" by (cases s)
    obtain k2 st2 where s': "s' = (k2, st2)" by (cases s')
    from r obtain num own where num: "load (in_nums inb) i = Some num"
      and own: "owned (outOwnerRange op) (mpiRank op) num = Some own"
      by (auto simp: read_in_def bind_eq_Some_conv)
    show "fst s' = k' \<and> summed_both rp cs erp ecs (es0 @ es1) (snd s')"
    proof (cases own)
      case False
      from r num own False s obtain n where n: "load (in_weights_per_row inb) i = Some n"
        and e: "es1 = []" and k: "k' = k1 + n"
        by (auto simp: read_in_def bind_eq_Some_conv)
      have "s' = (k1 + n, st1)" using b s num own False n by simp
      then show ?thesis using I s e k by simp
    next
      case True
      from r num own True s obtain lo n where lo: "rd (outOwnerRange op) (mpiRank op) = Some lo"
        and n: "load (in_weights_per_row inb) i = Some n"
        and gi: "gather (\<lambda>j k. do {
                    v \<leftarrow> load (in_vars inb) k;
                    x \<leftarrow> load (in_weights inb) k;
                    Some ([(num - lo, v, x)], k + 1) }) [0..n - 1] k1 = Some (es1, k')"
        by (auto simp: read_in_def bind_eq_Some_conv)
      from b s s' num own True lo n have
        li: "for_loop [0..n - 1]
              (\<lambda>j (k, st). do {
                 v \<leftarrow> load (in_vars inb) k;
                 x \<leftarrow> load (in_weights inb) k;
                 st \<leftarrow> weight_entry op rp cs erp ecs (num - lo) v x st;
                 Some (k + 1, st) })
              (k1, st1) = Some (k2, st2)"
        by (simp add: Let_def)
      have I1: "summed_both rp cs erp ecs es0 st1" using I s by simp
      from weight_row_in[OF li gi I1 sp] show ?thesis using s' by simp
    qed
  qed
  then show ?thesis by simp
qed

lemma finalize_pattern_split:
  assumes p: "finalize_pattern op inb = Some (rp, cs, erp, ecs, err)"
    and eon: "staged_on op = Some eon" and ein: "staged_in op inb = Some ein"
  shows "split_pattern op rp cs erp ecs"
  unfolding split_pattern_def
proof (intro conjI allI impI)
  show "wf_csr (N op) rp cs" "wf_csr (N op) erp ecs" using finalize_pattern_wf[OF p] by simp_all
next
  fix i assume i: "i < nat (N op)"
  note c = finalize_pattern_columns(1,2)[OF p eon ein i]
  show "distinct (csr_row rp cs i)" unfolding c(1) by (rule uniqueSort_props(4))
  show "distinct (csr_row erp ecs i)" unfolding c(2) by (rule uniqueSort_props(4))
  show "\<forall>c \<in> set (csr_row rp cs i). local_in op c"
    unfolding c(1) uniqueSort_props(2) by (auto simp: columns_of_def)
  show "\<forall>c \<in> set (csr_row erp ecs i). \<not> local_in op c"
    unfolding c(2) uniqueSort_props(2) by (auto simp: columns_of_def)
qed

lemma summed_row:
  fixes ws :: "'a::{zero,plus} list"
  assumes s: "summed rp cs es ws" and wf: "wf_csr n rp cs" and i: "i < nat n"
  shows "csr_row rp ws i = map (weight_of es (int i)) (csr_row rp cs i)"
proof (rule nth_equalityI)
  from s have lw: "length ws = length cs"
    and val: "\<And>q p. 0 \<le> q \<Longrightarrow> q + 1 < int (length rp) \<Longrightarrow> rp ! nat q \<le> p \<Longrightarrow> p < rp ! nat (q + 1)
          \<Longrightarrow> ws ! nat p = weight_of es q (cs ! nat p)"
    unfolding summed_def by blast+
  have wfw: "wf_csr n rp ws" using wf lw by (simp add: wf_csr_def)
  have l: "int (length rp) = n + 1" using wf by (simp add: wf_csr_def)
  note b = wf_csr_bounds(1,2)[OF wf, of i] wf_csr_bounds(2)[OF wf, of "Suc i"]
  have lc: "length (csr_row rp cs i) = nat (rp ! Suc i - rp ! i)" using b i by (simp add: csr_row_def)
  have lws: "length (csr_row rp ws i) = nat (rp ! Suc i - rp ! i)" using b i lw by (simp add: csr_row_def)
  show "length (csr_row rp ws i) = length (map (weight_of es (int i)) (csr_row rp cs i))"
    using lc lws by simp
  fix t assume t: "t < length (csr_row rp ws i)"
  let ?p = "rp ! i + int t"
  have p: "rp ! i \<le> ?p" "?p < rp ! Suc i" using t lws by linarith+
  have tt: "nat (?p - rp ! i) = t" by simp
  have "csr_row rp ws i ! t = ws ! nat ?p" using csr_row_nth(2)[OF wfw i p] tt by simp
  also have "\<dots> = weight_of es (int i) (cs ! nat ?p)"
    using val[of "int i" ?p] p i l by (simp add: nat_add_distrib)
  also have "cs ! nat ?p = csr_row rp cs i ! t" using csr_row_nth(2)[OF wf i p] tt by simp
  finally show "csr_row rp ws i ! t = map (weight_of es (int i)) (csr_row rp cs i) ! t"
    using t lc lws by simp
qed

lemma finalize_weights_sums:
  fixes op :: "'a::{zero,plus} BVecInterp"
  assumes p: "finalize_pattern op inb = Some (rp, cs, erp, ecs, err)"
    and w: "finalize_weights op inb rp cs erp ecs = Some (ws, ews)"
    and eon: "staged_on op = Some eon" and ein: "staged_in op inb = Some ein"
    and i: "i < nat (N op)"
  shows "csr_row rp ws i = map (weight_of (eon @ ein) (int i)) (csr_row rp cs i)"
    and "csr_row erp ews i = map (weight_of (eon @ ein) (int i)) (csr_row erp ecs i)"
proof -
  note sp = finalize_pattern_split[OF p eon ein]
  note wf = finalize_pattern_wf[OF p]
  from w obtain n ws0 en ews0 st1 k where n: "rd rp (N op) = Some n" and ws0: "new_zeroed n = Some ws0"
    and en: "rd erp (N op) = Some en" and ews0: "new_zeroed en = Some ews0"
    and won: "weights_on op rp cs erp ecs (ws0, ews0) = Some st1"
    and win: "weights_in op inb rp cs erp ecs (0, st1) = Some (k, ws, ews)"
    unfolding finalize_weights_def by (auto simp: bind_eq_Some_conv split: prod.splits)
  have "ws0 = replicate (length cs) 0"
    using new_zeroed_Some[OF ws0] n wf_csr_last[OF wf(1)] by simp
  moreover have "ews0 = replicate (length ecs) 0"
    using new_zeroed_Some[OF ews0] en wf_csr_last[OF wf(2)] by simp
  ultimately have W0: "summed_both rp cs erp ecs [] (ws0, ews0)"
    using summed_start[OF wf(1)] summed_start[OF wf(2)] by (simp add: summed_both_def)
  have W1: "summed_both rp cs erp ecs ([] @ eon) st1"
    by (rule weights_on_summed[OF won eon W0 sp])
  have "summed_both rp cs erp ecs (eon @ ein) (ws, ews)"
    by (rule weights_in_summed[OF win ein _ sp]) (use W1 in simp)
  then have s: "summed rp cs (eon @ ein) ws" "summed erp ecs (eon @ ein) ews"
    by (simp_all add: summed_both_def)
  show "csr_row rp ws i = map (weight_of (eon @ ein) (int i)) (csr_row rp cs i)"
    by (rule summed_row[OF s(1) wf(1) i])
  show "csr_row erp ews i = map (weight_of (eon @ ein) (int i)) (csr_row erp ecs i)"
    by (rule summed_row[OF s(2) wf(2) i])
qed

lemma csr_row_map: "csr_row rp (map f xs) i = map f (csr_row rp xs i)"
  by (simp add: csr_row_def take_map drop_map)

lemma set_csr_row_subset: "set (csr_row rp xs i) \<subseteq> set xs"
  unfolding csr_row_def by (meson set_take_subset set_drop_subset subset_trans)

lemma first_index_mono:
  assumes s: "sorted_wrt (<) tab" and a: "a \<in> set tab" and b: "b \<in> set tab" and ab: "a < (b::int)"
  shows "first_index a tab < first_index b tab"
proof (rule ccontr)
  assume "\<not> first_index a tab < first_index b tab"
  then have le: "first_index b tab \<le> first_index a tab" by simp
  note fa = first_index_less[OF a] and fb = first_index_less[OF b]
  show False
  proof (cases "first_index b tab = first_index a tab")
    case True
    then show False using fa fb ab by simp
  next
    case False
    then have "first_index b tab < first_index a tab" using le by simp
    from sorted_wrt_nth_less[OF s this] fa fb ab show False by simp
  qed
qed

lemma sorted_first_index:
  assumes s: "sorted_wrt (<) tab" and r: "sorted_wrt (<) row" and sub: "set row \<subseteq> set tab"
  shows "sorted_wrt (<) (map (\<lambda>c. int (first_index c tab)) row)"
  using r sub
proof (induction row)
  case Nil
  then show ?case by simp
next
  case (Cons c row)
  then show ?case using first_index_mono[OF s] by auto
qed

text \<open>
  Claim C3. After \<open>finalize\<close>, every row of the local and of the external CSR structure is
  strictly increasing in its columns, so sorted and without a duplicate. Before the
  renumbering of the columns, row \<open>i\<close> of the local structure holds exactly the local
  columns that the contributions name for the row, the external structure the others; and
  before the normalisation the weight at a column is the sum of the weights of all
  contributions for that row and column, those staged on this process followed by those
  received from the others, in the order of the passes.
\<close>

theorem csr_rows_sorted_unique_summed:
  fixes op1 :: "'a::{zero,plus,inverse} BVecInterp"
  assumes p: "finalize_pattern op1 inb = Some (rp, cs, erp, ecs, err)"
    and w: "finalize_weights op1 inb rp cs erp ecs = Some (ws, ews)"
    and f: "finalize_assemble op1 inb = Some (op, err')"
    and eon: "staged_on op1 = Some eon" and ein: "staged_in op1 inb = Some ein"
    and i: "i < nat (N op1)"
  shows "rowp op = rp \<and> ext_rowp op = erp
       \<and> sorted_wrt (<) (csr_row rp (cols op) i)
       \<and> sorted_wrt (<) (csr_row erp (ext_cols op) i)
       \<and> csr_row rp cs i = uniqueSort (columns_of op1 True (eon @ ein) (int i))
       \<and> csr_row erp ecs i = uniqueSort (columns_of op1 False (eon @ ein) (int i))
       \<and> csr_row rp ws i = map (weight_of (eon @ ein) (int i)) (csr_row rp cs i)
       \<and> csr_row erp ews i = map (weight_of (eon @ ein) (int i)) (csr_row erp ecs i)"
proof -
  note wf = finalize_pattern_wf[OF p]
  note c = finalize_pattern_columns(1,2)[OF p eon ein i]
  note s = finalize_weights_sums[OF p w eon ein i]
  from p f obtain ext_vars nvars cs' ecs' where
    r: "finalize_renumber op1 rp cs erp ecs = Some (ext_vars, nvars, cs', ecs')"
    and fl: "cols op = cs'" "ext_cols op = ecs'" "rowp op = rp" "ext_rowp op = erp"
    by (auto simp: finalize_assemble_def bind_eq_Some_conv split: prod.splits)
  note res = finalize_renumber_result[OF wf r]
  have srt: "sorted_wrt (<) (csr_row rp cs i)" "sorted_wrt (<) (csr_row erp ecs i)"
    unfolding c by (rule uniqueSort_props(1))+
  have "sorted_wrt (<) (csr_row rp cs' i)"
  proof (cases "cs = []")
    case True
    then show ?thesis using res(5) by (simp add: csr_row_def)
  next
    case False
    from res(4)[OF this] obtain lo where "cs' = map (\<lambda>c. c - lo) cs" by blast
    then show ?thesis using srt(1) by (simp add: csr_row_map sorted_wrt_map)
  qed
  moreover have "sorted_wrt (<) (csr_row erp ecs' i)"
    unfolding res(3) csr_row_map
  proof (rule sorted_first_index[OF _ srt(2)])
    show "sorted_wrt (<) ext_vars" unfolding res(1) by (rule uniqueSort_props(1))
    show "set (csr_row erp ecs i) \<subseteq> set ext_vars"
      unfolding res(1) uniqueSort_props(2) by (rule set_csr_row_subset)
  qed
  ultimately show ?thesis using fl c s by simp
qed

theorem csr_rows_sorted_unique_summed_witness:
  "case Option.bind unfinalized_duplicates (\<lambda>ops. finalize_steps ops 0) of
     Some (op1, inb, (rp, cs, erp, ecs, err), (ws, ews), (op, err')) \<Rightarrow>
       staged_on op1 = Some [(0, 1, 1), (0, 3, 2), (0, 1, 4)]
     \<and> staged_in op1 inb = Some [(0, 3, 8)]
     \<and> rowp op = rp \<and> ext_rowp op = erp
     \<and> sorted_wrt (<) (csr_row rp (cols op) 0)
     \<and> sorted_wrt (<) (csr_row erp (ext_cols op) 0)
     \<and> csr_row rp cs 0 = [1] \<and> csr_row erp ecs 0 = [3]
     \<and> csr_row rp ws 0 = [5] \<and> csr_row erp ews 0 = [10]
   | None \<Rightarrow> False"
proof -
  have "map_option (\<lambda>(op1, inb, (rp, cs, erp, ecs, err), (ws, ews), (op, err')).
          (N op1, staged_on op1, staged_in op1 inb, inOwnerRange op1, mpiRank op1))
      (Option.bind unfinalized_duplicates (\<lambda>ops. finalize_steps ops 0))
      = Some (2, Some [(0, 1, 1), (0, 3, 2), (0, 1, 4)], Some [(0, 3, 8)], [0, 2, 4], 0)"
    by code_simp
  then obtain op1 inb rp cs erp ecs err ws ews op err' where
    st: "Option.bind unfinalized_duplicates (\<lambda>ops. finalize_steps ops 0)
       = Some (op1, inb, (rp, cs, erp, ecs, err), (ws, ews), (op, err'))"
    and n: "N op1 = 2"
    and eon: "staged_on op1 = Some [(0, 1, 1), (0, 3, 2), (0, 1, 4)]"
    and ein: "staged_in op1 inb = Some [(0, 3, 8)]"
    and ir: "inOwnerRange op1 = [0, 2, 4]" and rk: "mpiRank op1 = 0"
    by auto
  then obtain ops where
    fs: "finalize_steps ops 0 = Some (op1, inb, (rp, cs, erp, ecs, err), (ws, ews), (op, err'))"
    by (auto simp: bind_eq_Some_conv)
  from fs have p: "finalize_pattern op1 inb = Some (rp, cs, erp, ecs, err)"
    and w: "finalize_weights op1 inb rp cs erp ecs = Some (ws, ews)"
    and f: "finalize_assemble op1 inb = Some (op, err')"
    by (auto simp: finalize_steps_def bind_eq_Some_conv split: if_splits)
  have i0: "0 < nat (N op1)" using n by simp
  have l: "local_in op1 1" "\<not> local_in op1 3"
    by (simp_all add: local_in_def ir rk owned_def rd_def)
  have c: "uniqueSort (columns_of op1 True [(0, 1, 1), (0, 3, 2), (0, 1, 4), (0, 3, 8::real)] 0) = [1]"
    "uniqueSort (columns_of op1 False [(0, 1, 1), (0, 3, 2), (0, 1, 4), (0, 3, 8::real)] 0) = [3]"
    by (simp_all add: columns_of_def uniqueSort_def l)
  have s: "weight_of [(0, 1, 1), (0, 3, 2), (0, 1, 4), (0, 3, 8::real)] 0 1 = 5"
    "weight_of [(0, 1, 1), (0, 3, 2), (0, 1, 4), (0, 3, 8::real)] 0 3 = 10"
    by (simp_all add: weight_of_def)
  show ?thesis
    unfolding st
    using csr_rows_sorted_unique_summed[OF p w f eon ein i0]
    by (simp add: eon ein c s)
qed

section \<open>\<open>multAdd\<close> in floating point\<close>

text \<open>
  In floating point \<open>multAdd\<close> does not leave \<open>z + P x\<close>: with the weights 1/2 and 1/2,
  \<open>x = [2^-52, 2^-52]\<close> and \<open>z = [1]\<close>, each of the two additions \<open>1 + 2^-53\<close> rounds to 1 and
  \<open>multAdd\<close> leaves 1, while \<open>mult\<close> leaves \<open>P x = 2^-52\<close> and \<open>z + P x\<close> is \<open>1 + 2^-52\<close>.
\<close>

theorem multAdd_rounds_each_addition:
  "case scenario_halves of
     Some [(op, err)] \<Rightarrow>
       weights op = [Double 1 (-1), Double 1 (-1)]
     \<and> map_option (\<lambda>w. heap w (Vec 3))
         (multAdd op (\<lambda>_. 0) 2 4 3
            \<lparr> heap = (\<lambda>_. [])(Vec 2 := [Double 1 (-52), Double 1 (-52)], Vec 3 := [Double 7 0],
                       Vec 4 := [Double 1 0]), stderr = [] \<rparr>)
         = Some [Double 1 0]
     \<and> map_option (\<lambda>w. heap w (Vec 3))
         (mult op (\<lambda>_. 0) 2 3
            \<lparr> heap = (\<lambda>_. [])(Vec 2 := [Double 1 (-52), Double 1 (-52)], Vec 3 := [Double 7 0],
                       Vec 4 := [Double 1 0]), stderr = [] \<rparr>)
         = Some [Double 1 (-52)]
     \<and> map2 (+) [Double 1 0] [Double 1 (-52)] = [Double 4503599627370497 (-52)]
     \<and> [Double 1 0] \<noteq> [Double 4503599627370497 (-52)]
   | _ \<Rightarrow> False"
  by code_simp

end
